theory Spec2Isabelle
  imports Complex_Main
begin

section \<open>JavaScript strings and numbers\<close>

text \<open>
  A JavaScript string is a sequence of UTF-16 code units; \<open>charCodeAt\<close> and
  \<open>String.fromCharCode\<close> read and write them. Code units are natural numbers here
  (below 65536 in every string the program handles).
\<close>

type_synonym jsstring = "nat list"

definition ascii :: "string \<Rightarrow> jsstring" where
  "ascii s = map of_char s"

text \<open>
  The white space of \<open>\s\<close> in a regular expression and of \<open>String.prototype.trim\<close>:
  TAB, LF, VT, FF, CR, SPACE, NBSP, U+1680, U+2000 to U+200A, U+2028, U+2029, U+202F,
  U+205F, U+3000 and U+FEFF. The zero-width characters U+200B to U+200D are not white space.
\<close>

definition isSpace :: "nat \<Rightarrow> bool" where
  "isSpace c \<longleftrightarrow>
     c \<in> set [9, 10, 11, 12, 13, 32, 160, 5760, 8232, 8233, 8239, 8287, 12288, 65279]
     \<or> (8192 \<le> c \<and> c \<le> 8202)"

definition trim :: "jsstring \<Rightarrow> jsstring" where
  "trim s = rev (dropWhile isSpace (rev (dropWhile isSpace s)))"

text \<open>\<open>%\<close> on numbers that hold integers: the remainder has the sign of the dividend.\<close>

definition jsrem :: "int \<Rightarrow> int \<Rightarrow> int" where
  "jsrem a b = sgn a * (\<bar>a\<bar> mod \<bar>b\<bar>)"

text \<open>
  \<open>Number.prototype.toString(radix)\<close> on an integer: the digits of the magnitude, most
  significant first, lower-case letters above 9, a leading minus sign when negative.
\<close>

definition digitChar :: "nat \<Rightarrow> nat" where
  "digitChar d = (if d < 10 then 48 + d else 87 + d)"

function natToString :: "nat \<Rightarrow> nat \<Rightarrow> jsstring" where
  "natToString radix n =
     (if n < radix \<or> radix < 2 then [digitChar n]
      else natToString radix (n div radix) @ [digitChar (n mod radix)])"
  by pat_completeness auto
termination
  by (relation "measure snd") auto

declare natToString.simps [simp del]

definition intToString :: "nat \<Rightarrow> int \<Rightarrow> jsstring" where
  "intToString radix i =
     (if i < 0 then 45 # natToString radix (nat (- i)) else natToString radix (nat i))"

definition padStart :: "nat \<Rightarrow> nat \<Rightarrow> jsstring \<Rightarrow> jsstring" where
  "padStart n c s = replicate (n - length s) c @ s"

text \<open>
  \<open>parseInt(s, radix)\<close> for a radix from 2 to 16: leading white space is skipped, then an
  optional sign, then (radix 16 only) an optional \<open>0x\<close>, then the longest run of digits of
  the radix. No digit gives NaN, which is \<open>None\<close> here.
\<close>

definition digitValue :: "nat \<Rightarrow> nat option" where
  "digitValue c =
     (if 48 \<le> c \<and> c \<le> 57 then Some (c - 48)
      else if 97 \<le> c \<and> c \<le> 122 then Some (c - 87)
      else if 65 \<le> c \<and> c \<le> 90 then Some (c - 55)
      else None)"

definition isRadixDigit :: "nat \<Rightarrow> nat \<Rightarrow> bool" where
  "isRadixDigit radix c = (case digitValue c of None \<Rightarrow> False | Some d \<Rightarrow> d < radix)"

definition digitsValue :: "nat \<Rightarrow> jsstring \<Rightarrow> nat" where
  "digitsValue radix ds = foldl (\<lambda>acc c. acc * radix + (case digitValue c of None \<Rightarrow> 0 | Some d \<Rightarrow> d)) 0 ds"

definition stripHexPrefix :: "nat \<Rightarrow> jsstring \<Rightarrow> jsstring" where
  "stripHexPrefix radix s =
     (case s of
        a # b # rest \<Rightarrow> if radix = 16 \<and> a = 48 \<and> (b = 120 \<or> b = 88) then rest else s
      | _ \<Rightarrow> s)"

definition parseInt :: "jsstring \<Rightarrow> nat \<Rightarrow> int option" where
  "parseInt s radix =
     (let t = dropWhile isSpace s;
          neg = (case t of c # _ \<Rightarrow> c = 45 | [] \<Rightarrow> False);
          u = (case t of c # rest \<Rightarrow> if c = 45 \<or> c = 43 then rest else t | [] \<Rightarrow> t);
          v = stripHexPrefix radix u;
          ds = takeWhile (isRadixDigit radix) v
      in if ds = [] then None
         else Some ((if neg then - 1 else 1) * int (digitsValue radix ds)))"


section \<open>Phase 1: fingerprint preprocessing and minutiae extraction\<close>

datatype minutia_type = Ending | Bifurcation

text \<open>
  \<open>MinutiaePoint\<close>: the coordinates are the integer pixel positions of the extraction loops;
  the angle is a double (\<open>Math.atan2\<close> scaled to degrees), read here as the real number it
  denotes. The fields \<open>x\<close>, \<open>y\<close> and \<open>type\<close> carry a prefix.
\<close>

record MinutiaePoint =
  px :: int
  py :: int
  angle :: real
  mtype :: minutia_type

definition MIN_MINUTIAE :: nat where
  "MIN_MINUTIAE = 12"

definition MAX_MINUTIAE :: nat where
  "MAX_MINUTIAE = 80"

subsection \<open>applyMedianFilter\<close>

text \<open>
  The RGBA buffer is a \<open>Uint8ClampedArray\<close>: a list of bytes, four per pixel. A read past
  the end gives \<open>undefined\<close> (\<open>None\<close>); a write past the end is dropped, as \<open>list_update\<close>
  drops it; a fresh array holds zeros.
\<close>

definition readByte :: "nat list \<Rightarrow> nat \<Rightarrow> nat option" where
  "readByte data i = (if i < length data then Some (data ! i) else None)"

text \<open>
  \<open>neighbors.sort((a, b) => a - b)\<close> orders the numbers and moves every \<open>undefined\<close> behind
  them; element 4 of the nine is the median. Storing \<open>undefined\<close> in the clamped array
  stores 0.
\<close>

definition medianOf :: "nat option list \<Rightarrow> nat" where
  "medianOf neighbors =
     (let ordered = sort (concat (map (\<lambda>v. case v of None \<Rightarrow> [] | Some n \<Rightarrow> [n]) neighbors))
      in if 4 < length ordered then ordered ! 4 else 0)"

definition neighborValues :: "nat list \<Rightarrow> nat \<Rightarrow> nat \<Rightarrow> nat \<Rightarrow> nat option list" where
  "neighborValues data width x y =
     concat (map (\<lambda>ny. map (\<lambda>nx. readByte data ((ny * width + nx) * 4)) [x - 1, x, x + 1])
                 [y - 1, y, y + 1])"

definition filterPixel :: "nat list \<Rightarrow> nat \<Rightarrow> nat \<Rightarrow> nat \<Rightarrow> nat list \<Rightarrow> nat list" where
  "filterPixel data width y x filtered =
     (let idx = (y * width + x) * 4;
          median = medianOf (neighborValues data width x y)
      in filtered[idx := median, idx + 1 := median, idx + 2 := median,
                  idx + 3 := (case readByte data (idx + 3) of None \<Rightarrow> 0 | Some a \<Rightarrow> a)])"

definition applyMedianFilter :: "nat list \<Rightarrow> nat \<Rightarrow> nat \<Rightarrow> nat list" where
  "applyMedianFilter data width height =
     fold (\<lambda>y filtered. fold (filterPixel data width y) [1 ..< width - 1] filtered)
          [1 ..< height - 1] (replicate (length data) 0)"

text \<open>The pixels of the one-pixel margin of a \<open>width\<close> by \<open>height\<close> image.\<close>

definition isBorder :: "nat \<Rightarrow> nat \<Rightarrow> nat \<Rightarrow> nat \<Rightarrow> bool" where
  "isBorder width height x y \<longleftrightarrow>
     x < width \<and> y < height \<and> (x = 0 \<or> y = 0 \<or> x = width - 1 \<or> y = height - 1)"

subsection \<open>normalizeMinutiae\<close>

text \<open>
  \<open>Math.hypot(dx, dy) < 5\<close> on integer differences holds exactly when
  \<open>dx\<^sup>2 + dy\<^sup>2 < 25\<close>: the square root of an integer below 25 is below 4.9, and the
  one of 25 is 5.
\<close>

definition tooClose :: "MinutiaePoint \<Rightarrow> MinutiaePoint \<Rightarrow> bool" where
  "tooClose existing point \<longleftrightarrow> (px existing - px point)\<^sup>2 + (py existing - py point)\<^sup>2 < 25"

fun normalizeLoop :: "MinutiaePoint list \<Rightarrow> MinutiaePoint list \<Rightarrow> MinutiaePoint list" where
  "normalizeLoop [] filtered = filtered"
| "normalizeLoop (point # rest) filtered =
     (let isTooClose = list_ex (\<lambda>existing. tooClose existing point) filtered;
          filtered' = (if \<not> isTooClose then filtered @ [point] else filtered)
      in if length filtered' \<ge> MAX_MINUTIAE then filtered' else normalizeLoop rest filtered')"

definition normalizeMinutiae :: "MinutiaePoint list \<Rightarrow> MinutiaePoint list" where
  "normalizeMinutiae minutiae = normalizeLoop minutiae []"

subsection \<open>processFingerprint\<close>

text \<open>
  Decoding the image file and the raster stages up to \<open>extractMinutiae\<close> run on the browser's
  canvas. Their outcome is the input here: either the promise is rejected before the
  minutiae exist (\<open>img.onerror\<close>, or an exception caught in \<open>img.onload\<close>), or
  \<open>extractMinutiae\<close> returned its candidates in scan order.
\<close>

datatype js_error = Error jsstring

datatype fingerprint = Unreadable jsstring | Extracted "MinutiaePoint list"

definition qualityMessage :: "nat \<Rightarrow> jsstring" where
  "qualityMessage detected =
     ascii ''Fingerprint quality insufficient: detected '' @ natToString 10 detected
     @ ascii '' minutiae; at least '' @ natToString 10 MIN_MINUTIAE @ ascii '' are required.''"

definition processFingerprint :: "fingerprint \<Rightarrow> js_error + MinutiaePoint list" where
  "processFingerprint imageFile =
     (case imageFile of
        Unreadable msg \<Rightarrow> Inl (Error msg)
      | Extracted minutiae \<Rightarrow>
          (let normalizedMinutiae = normalizeMinutiae minutiae
           in if length normalizedMinutiae < MIN_MINUTIAE
              then Inl (Error (qualityMessage (length normalizedMinutiae)))
              else Inr normalizedMinutiae))"

section \<open>Slot counts of the two payload distributors\<close>

text \<open>
  \<open>Math.floor(n * 0.3)\<close> is \<open>3 * n div 10\<close> for every count a document can reach (the
  double nearest to 0.3 is below it by less than \<open>2\<^sup>-\<^sup>5\<^sup>5\<close>, and the product is rounded to
  nearest), and \<open>Math.ceil(n / 32)\<close> is exact.
\<close>

definition floor03 :: "nat \<Rightarrow> nat" where
  "floor03 n = 3 * n div 10"

definition ceilDiv :: "nat \<Rightarrow> nat \<Rightarrow> nat" where
  "ceilDiv a b = (a + b - 1) div b"

text \<open>\<open>slotsToUse\<close> of \<open>distributeInvisiblePayload\<close> (plain text).\<close>

definition slotsToUse :: "nat \<Rightarrow> nat \<Rightarrow> nat" where
  "slotsToUse wordCount payloadLength =
     (let maxSlots = max 1 (floor03 wordCount);
          minSlots = max 1 (ceilDiv payloadLength 32)
      in min wordCount (max 1 (min maxSlots minSlots)))"

text \<open>\<open>determineSlotCount\<close> of the DOCX handler.\<close>

definition determineSlotCount :: "nat \<Rightarrow> nat \<Rightarrow> nat" where
  "determineSlotCount totalNodes payloadLength =
     (let maxSlots = max 1 (floor03 totalNodes);
          minSlots = max 1 (ceilDiv payloadLength 32)
      in min totalNodes (max minSlots (min maxSlots totalNodes)))"

text \<open>
  The slot count in the words of the specification:
  \<open>clamp(1, max(1, \<lceil>payloadLen/32\<rceil>), max(1, \<lfloor>0.3 \<times> slotCount\<rfloor>))\<close>, capped at the number of
  candidate slots; \<open>clamp(lo, v, hi)\<close> is \<open>max lo (min v hi)\<close>.
\<close>

definition specSlotCount :: "nat \<Rightarrow> nat \<Rightarrow> nat" where
  "specSlotCount slotCount payloadLen =
     min slotCount (max 1 (min (max 1 (ceilDiv payloadLen 32)) (max 1 (floor03 slotCount))))"


section \<open>Phase 2: the Fuzzy Vault\<close>

text \<open>
  \<open>FuzzyVault\<close>: the points are two-element arrays of integers, the secret a hex string,
  the polynomial its coefficients. The field \<open>vault\<close> is \<open>points\<close> here.
\<close>

record FuzzyVault =
  points :: "(int \<times> int) list"
  secret :: jsstring
  polynomial :: "int list"

definition fieldSize :: int where
  "fieldSize = 251"

definition vaultSize :: nat where
  "vaultSize = 5"

text \<open>
  \<open>generateSecret\<close>: the four bytes that \<open>crypto.getRandomValues\<close> wrote are the argument.
\<close>

definition byteToHex :: "int \<Rightarrow> jsstring" where
  "byteToHex byte = padStart 2 48 (intToString 16 byte)"

definition generateSecret :: "nat list \<Rightarrow> jsstring" where
  "generateSecret bytes = concat (map (\<lambda>byte. byteToHex (int byte)) bytes)"

text \<open>
  \<open>hexToBytes\<close>: \<open>parseInt\<close> of every two characters; \<open>None\<close> is NaN.
\<close>

function hexToBytes :: "jsstring \<Rightarrow> int option list" where
  "hexToBytes hex = (if hex = [] then [] else parseInt (take 2 hex) 16 # hexToBytes (drop 2 hex))"
  by pat_completeness auto
termination
  by (relation "measure length") auto

declare hexToBytes.simps [simp del]

text \<open>
  \<open>secretToPolynomial\<close>: every byte modulo the field size. A byte that is NaN would make
  the coefficient NaN; the result is \<open>None\<close> then (no secret of \<open>generateSecret\<close> does it).
\<close>

definition secretToPolynomial :: "jsstring \<Rightarrow> int list option" where
  "secretToPolynomial secretHex =
     those (map (map_option (\<lambda>byte. jsrem byte fieldSize)) (hexToBytes secretHex))"

definition encodeMinutia :: "MinutiaePoint \<Rightarrow> int" where
  "encodeMinutia minutia =
     (let combined = jsrem (px minutia * 1000 + py minutia * 10 + \<lfloor>angle minutia\<rfloor>
                            + (if mtype minutia = Bifurcation then 1 else 0)) fieldSize
      in max 1 combined)"

fun evaluateLoop :: "int list \<Rightarrow> int \<Rightarrow> int \<Rightarrow> int \<Rightarrow> int" where
  "evaluateLoop [] x result pw = result"
| "evaluateLoop (coeff # coefficients) x result pw =
     evaluateLoop coefficients x (jsrem (result + coeff * pw) fieldSize)
       (jsrem (pw * x) fieldSize)"

definition evaluatePolynomial :: "int list \<Rightarrow> int \<Rightarrow> int" where
  "evaluatePolynomial coefficients x = evaluateLoop coefficients x 0 1"

text \<open>
  \<open>Math.random\<close> is the sequence of its draws: \<open>rnd k\<close> stands for the \<open>k\<close>-th call, and
  \<open>Math.floor(Math.random() * n)\<close> at that call is \<open>rnd k mod n\<close>, any index below \<open>n\<close>.
\<close>

definition swapAt :: "'a list \<Rightarrow> nat \<Rightarrow> nat \<Rightarrow> 'a list" where
  "swapAt xs i j = xs[i := xs ! j, j := xs ! i]"

fun shuffleLoop :: "(nat \<Rightarrow> nat) \<Rightarrow> nat \<Rightarrow> nat \<Rightarrow> 'a list \<Rightarrow> 'a list" where
  "shuffleLoop rnd k 0 shuffled = shuffled"
| "shuffleLoop rnd k (Suc i) shuffled =
     (let j = rnd k mod (Suc i + 1)
      in shuffleLoop rnd (Suc k) i (swapAt shuffled (Suc i) j))"

definition shuffleArray :: "(nat \<Rightarrow> nat) \<Rightarrow> nat \<Rightarrow> 'a list \<Rightarrow> 'a list" where
  "shuffleArray rnd k array = shuffleLoop rnd k (length array - 1) array"

text \<open>The two loops of \<open>generateVaultPoints\<close>, then the shuffle.\<close>

definition realPoint :: "int list \<Rightarrow> MinutiaePoint \<Rightarrow> int \<times> int" where
  "realPoint poly minutia = (let x = encodeMinutia minutia in (x, evaluatePolynomial poly x))"

definition chaffPoint :: "(nat \<Rightarrow> nat) \<Rightarrow> nat \<Rightarrow> int \<times> int" where
  "chaffPoint rnd i =
     (int (rnd (2 * i) mod nat fieldSize), int (rnd (2 * i + 1) mod nat fieldSize))"

definition generateVaultPoints ::
  "(nat \<Rightarrow> nat) \<Rightarrow> MinutiaePoint list \<Rightarrow> int list \<Rightarrow> (int \<times> int) list" where
  "generateVaultPoints rnd minutiae poly =
     (let chaffCount = vaultSize - length minutiae
      in shuffleArray rnd (2 * chaffCount)
           (map (realPoint poly) minutiae @ map (chaffPoint rnd) [0 ..< chaffCount]))"

definition generateVault :: "(nat \<Rightarrow> nat) \<Rightarrow> nat list \<Rightarrow> MinutiaePoint list \<Rightarrow> FuzzyVault option" where
  "generateVault rnd bytes minutiae =
     (let secret = generateSecret bytes
      in case secretToPolynomial secret of
           None \<Rightarrow> None
         | Some poly \<Rightarrow>
             Some \<lparr>points = generateVaultPoints rnd minutiae poly, secret = secret,
                   polynomial = poly\<rparr>)"

text \<open>
  \<open>modInverse\<close>: the extended Euclidean loop on \<open>(oldR, r)\<close> and \<open>(oldS, s)\<close>;
  \<open>Math.floor(oldR / r)\<close> is \<open>div\<close> on integers.
\<close>

function modInverseLoop :: "int \<Rightarrow> int \<Rightarrow> int \<Rightarrow> int \<Rightarrow> int" where
  "modInverseLoop oldR r oldS s =
     (if r \<noteq> 0
      then (let quotient = oldR div r
            in modInverseLoop r (oldR - quotient * r) s (oldS - quotient * s))
      else oldS)"
  by pat_completeness auto
termination
  by (relation "measure (\<lambda>(oldR, r, oldS, s). nat \<bar>r\<bar>)")
     (auto simp: minus_div_mult_eq_mod abs_mod_less)

declare modInverseLoop.simps [simp del]

definition modInverse :: "int \<Rightarrow> int \<Rightarrow> int" where
  "modInverse a m = (let oldS = modInverseLoop a m 1 0 in if oldS < 0 then oldS + m else oldS)"

definition findMatchingPoints :: "(int \<times> int) list \<Rightarrow> MinutiaePoint list \<Rightarrow> (int \<times> int) list" where
  "findMatchingPoints vault minutiae =
     concat (map (\<lambda>minutia. case find (\<lambda>point. fst point = encodeMinutia minutia) vault of
                               None \<Rightarrow> [] | Some point \<Rightarrow> [point]) minutiae)"

text \<open>
  \<open>lagrangeInterpolation\<close>. The inner loop over \<open>k\<close> builds \<open>newTerm\<close> from \<open>term\<close>; the
  loop over \<open>j\<close> skips \<open>i\<close>; the loop over \<open>i\<close> adds every term to the coefficients.
\<close>

definition multiplyTerm :: "nat \<Rightarrow> int \<Rightarrow> int \<Rightarrow> int list \<Rightarrow> int list" where
  "multiplyTerm n xj denominator term' =
     map (\<lambda>k. let v = jsrem (term' ! k * denominator) fieldSize
               in if k > 0 then jsrem (v - term' ! (k - 1) * xj * denominator) fieldSize else v)
         [0 ..< n]"

definition lagrangeTerm :: "(int \<times> int) list \<Rightarrow> nat \<Rightarrow> int list" where
  "lagrangeTerm pts i =
     (let n = length pts; xi = fst (pts ! i); yi = snd (pts ! i)
      in fold (\<lambda>j term'.
                 if i \<noteq> j
                 then (let xj = fst (pts ! j);
                           denominator = modInverse (jsrem (xi - xj + fieldSize) fieldSize) fieldSize
                       in multiplyTerm n xj denominator term')
                 else term')
              [0 ..< n] ((replicate n 0)[0 := yi]))"

definition lagrangeInterpolation :: "(int \<times> int) list \<Rightarrow> int list" where
  "lagrangeInterpolation pts =
     (let n = length pts
      in fold (\<lambda>i coefficients.
                 map (\<lambda>k. jsrem (coefficients ! k + lagrangeTerm pts i ! k) fieldSize) [0 ..< n])
              [0 ..< n] (replicate n 0))"

definition polynomialToSecret :: "int list \<Rightarrow> jsstring" where
  "polynomialToSecret poly = concat (map byteToHex poly)"

text \<open>\<open>unlockVault\<close>: \<open>None\<close> is \<open>null\<close>. Nothing inside the \<open>try\<close> block throws on integers.\<close>

definition unlockVault :: "FuzzyVault \<Rightarrow> MinutiaePoint list \<Rightarrow> jsstring option" where
  "unlockVault vault minutiae =
     (let matchingPoints = findMatchingPoints (points vault) minutiae
      in if length matchingPoints < length (polynomial vault) then None
         else Some (polynomialToSecret (lagrangeInterpolation matchingPoints)))"

section \<open>JSON\<close>

text \<open>
  The values \<open>JSON.parse\<close> can return, and \<open>undefined\<close> for a property that is not
  there. A number is a real number (see \<open>parseNumber\<close>).
\<close>

datatype jsval =
    JUndefined
  | JNull
  | JBool bool
  | JNum real
  | JStr jsstring
  | JArr "jsval list"
  | JObj "(jsstring \<times> jsval) list"

text \<open>Truthiness (\<open>ToBoolean\<close>), as \<open>||\<close>, \<open>&&\<close> and \<open>!\<close> read a value.\<close>

fun truthy :: "jsval \<Rightarrow> bool" where
  "truthy JUndefined = False"
| "truthy JNull = False"
| "truthy (JBool b) = b"
| "truthy (JNum r) = (r \<noteq> 0)"
| "truthy (JStr str) = (str \<noteq> [])"
| "truthy (JArr _) = True"
| "truthy (JObj _) = True"

text \<open>
  Reading a property named by a single letter: \<open>null\<close> and \<open>undefined\<close> throw a TypeError
  (\<open>None\<close>); an object gives its last member of that name; every other value has no such
  property.
\<close>

fun getProp :: "jsval \<Rightarrow> jsstring \<Rightarrow> jsval option" where
  "getProp JUndefined k = None"
| "getProp JNull k = None"
| "getProp (JObj members) k =
     (case map_of (rev members) k of None \<Rightarrow> Some JUndefined | Some v \<Rightarrow> Some v)"
| "getProp _ k = Some JUndefined"

subsection \<open>JSON.stringify on the watermark object\<close>

definition isHighSurrogate :: "nat \<Rightarrow> bool" where
  "isHighSurrogate ch \<longleftrightarrow> 55296 \<le> ch \<and> ch \<le> 56319"

definition isLowSurrogate :: "nat \<Rightarrow> bool" where
  "isLowSurrogate ch \<longleftrightarrow> 56320 \<le> ch \<and> ch \<le> 57343"

definition hex4 :: "nat \<Rightarrow> jsstring" where
  "hex4 ch = [digitChar (ch div 4096 mod 16), digitChar (ch div 256 mod 16),
              digitChar (ch div 16 mod 16), digitChar (ch mod 16)]"

definition quoteUnit :: "nat \<Rightarrow> jsstring" where
  "quoteUnit ch =
     (if ch = 8 then [92, 98]
      else if ch = 9 then [92, 116]
      else if ch = 10 then [92, 110]
      else if ch = 12 then [92, 102]
      else if ch = 13 then [92, 114]
      else if ch = 34 then [92, 34]
      else if ch = 92 then [92, 92]
      else if ch < 32 \<or> isHighSurrogate ch \<or> isLowSurrogate ch then [92, 117] @ hex4 ch
      else [ch])"

fun quoteBody :: "jsstring \<Rightarrow> jsstring" where
  "quoteBody [] = []"
| "quoteBody [ch] = quoteUnit ch"
| "quoteBody (ch # d # rest) =
     (if isHighSurrogate ch \<and> isLowSurrogate d then ch # d # quoteBody rest
      else quoteUnit ch @ quoteBody (d # rest))"

definition quoteJSONString :: "jsstring \<Rightarrow> jsstring" where
  "quoteJSONString str = [34] @ quoteBody str @ [34]"

text \<open>
  \<open>UltraCompactWatermarkData\<close>, as its interface types it. The timestamp is the integer
  number of milliseconds of \<open>Date.now()\<close>. An integer of magnitude \<open>2\<^sup>5\<^sup>3\<close> at most is a
  JavaScript number, written in its decimal digits; \<open>JSON_stringify\<close> is the code's on
  those (a larger integer is rounded to a double before it is written). The fields \<open>f\<close>,
  \<open>s\<close>, \<open>t\<close> and \<open>c\<close> carry a prefix.
\<close>

record UltraCompactWatermarkData =
  uc_f :: jsstring
  uc_s :: jsstring
  uc_t :: int
  uc_c :: jsstring

definition JSON_stringify :: "UltraCompactWatermarkData \<Rightarrow> jsstring" where
  "JSON_stringify d =
     ascii ''{'' @ quoteJSONString (ascii ''f'') @ ascii '':'' @ quoteJSONString (uc_f d)
     @ ascii '','' @ quoteJSONString (ascii ''s'') @ ascii '':'' @ quoteJSONString (uc_s d)
     @ ascii '','' @ quoteJSONString (ascii ''t'') @ ascii '':'' @ intToString 10 (uc_t d)
     @ ascii '','' @ quoteJSONString (ascii ''c'') @ ascii '':'' @ quoteJSONString (uc_c d)
     @ ascii ''}''"

subsection \<open>JSON.parse\<close>

definition isJsonSpace :: "nat \<Rightarrow> bool" where
  "isJsonSpace ch \<longleftrightarrow> ch = 32 \<or> ch = 9 \<or> ch = 10 \<or> ch = 13"

definition skipSpace :: "jsstring \<Rightarrow> jsstring" where
  "skipSpace = dropWhile isJsonSpace"

definition isDigit :: "nat \<Rightarrow> bool" where
  "isDigit ch \<longleftrightarrow> 48 \<le> ch \<and> ch \<le> 57"

definition hexDigit :: "nat \<Rightarrow> nat option" where
  "hexDigit ch = (case digitValue ch of None \<Rightarrow> None | Some d \<Rightarrow> if d < 16 then Some d else None)"

definition unescape :: "nat \<Rightarrow> nat option" where
  "unescape e =
     (if e = 34 then Some 34
      else if e = 92 then Some 92
      else if e = 47 then Some 47
      else if e = 98 then Some 8
      else if e = 102 then Some 12
      else if e = 110 then Some 10
      else if e = 114 then Some 13
      else if e = 116 then Some 9
      else None)"

text \<open>The characters of a string literal after its opening quote, and the rest of the input.\<close>

fun parseStringBody :: "jsstring \<Rightarrow> (jsstring \<times> jsstring) option" where
  "parseStringBody [] = None"
| "parseStringBody (ch # rest) =
     (if ch = 34 then Some ([], rest)
      else if ch = 92 then
        (case rest of
           [] \<Rightarrow> None
         | e # rest' \<Rightarrow>
             if e = 117 then
               (case rest' of
                  h1 # h2 # h3 # h4 # rest'' \<Rightarrow>
                    (case (hexDigit h1, hexDigit h2, hexDigit h3, hexDigit h4) of
                       (Some d1, Some d2, Some d3, Some d4) \<Rightarrow>
                         (case parseStringBody rest'' of
                            None \<Rightarrow> None
                          | Some (str, r) \<Rightarrow> Some ((((d1 * 16 + d2) * 16 + d3) * 16 + d4) # str, r))
                     | _ \<Rightarrow> None)
                | _ \<Rightarrow> None)
             else
               (case unescape e of
                  None \<Rightarrow> None
                | Some u \<Rightarrow>
                    (case parseStringBody rest' of
                       None \<Rightarrow> None
                     | Some (str, r) \<Rightarrow> Some (u # str, r))))
      else if ch < 32 then None
      else (case parseStringBody rest of
              None \<Rightarrow> None
            | Some (str, r) \<Rightarrow> Some (ch # str, r)))"

text \<open>
  A number: \<open>-?(0|[1-9][0-9]*)(\.[0-9]+)?([eE][+-]?[0-9]+)?\<close>, with the value its text
  denotes. JavaScript rounds that value to the nearest double; a value of magnitude
  \<open>2\<^sup>-\<^sup>1\<^sup>0\<^sup>7\<^sup>5\<close> or less becomes zero, which is falsy, and \<open>roundToZero\<close> writes that out. Every
  other value is kept exact: the code reads a parsed number for its truthiness and its
  inequality to a string only, which no other rounding changes.
\<close>

definition roundToZero :: "real \<Rightarrow> real" where
  "roundToZero v = (if \<bar>v\<bar> \<le> 1 / 2 ^ 1075 then 0 else v)"

definition parseFraction :: "jsstring \<Rightarrow> (real \<times> jsstring) option" where
  "parseFraction inp =
     (case inp of
        ch # rest \<Rightarrow>
          if ch = 46 then
            (let ds = takeWhile isDigit rest
             in if ds = [] then None
                else Some (real (digitsValue 10 ds) / 10 ^ length ds, dropWhile isDigit rest))
          else Some (0, inp)
      | [] \<Rightarrow> Some (0, inp))"

definition parseExponent :: "jsstring \<Rightarrow> (real \<times> jsstring) option" where
  "parseExponent inp =
     (case inp of
        ch # rest \<Rightarrow>
          if ch = 101 \<or> ch = 69 then
            (let neg = (case rest of sg # _ \<Rightarrow> sg = 45 | [] \<Rightarrow> False);
                 rest' = (case rest of sg # r \<Rightarrow> if sg = 45 \<or> sg = 43 then r else rest
                          | [] \<Rightarrow> rest);
                 ds = takeWhile isDigit rest'
             in if ds = [] then None
                else Some (if neg then 1 / 10 ^ digitsValue 10 ds else 10 ^ digitsValue 10 ds,
                           dropWhile isDigit rest'))
          else Some (1, inp)
      | [] \<Rightarrow> Some (1, inp))"

definition parseNumber :: "jsstring \<Rightarrow> (real \<times> jsstring) option" where
  "parseNumber inp =
     (let neg = (case inp of ch # _ \<Rightarrow> ch = 45 | [] \<Rightarrow> False);
          body = (if neg then tl inp else inp);
          ds = takeWhile isDigit body;
          rest = dropWhile isDigit body
      in if ds = [] \<or> (hd ds = 48 \<and> length ds > 1) then None
         else (case parseFraction rest of
                 None \<Rightarrow> None
               | Some (fr, rest') \<Rightarrow>
                   (case parseExponent rest' of
                      None \<Rightarrow> None
                    | Some (ex, rest'') \<Rightarrow>
                        Some (roundToZero
                                ((if neg then - 1 else 1) * (real (digitsValue 10 ds) + fr) * ex),
                              rest''))))"

text \<open>
  The recursive descent over values, array elements and object members. The first
  argument bounds the depth of the calls; \<open>JSON_parse\<close> starts it above the length of the
  text, which no parse exceeds: a parse needs a depth no larger than the number of
  characters it consumes.
\<close>

fun parseValue :: "nat \<Rightarrow> jsstring \<Rightarrow> (jsval \<times> jsstring) option"
  and parseElements :: "nat \<Rightarrow> jsstring \<Rightarrow> (jsval list \<times> jsstring) option"
  and parseMembers :: "nat \<Rightarrow> jsstring \<Rightarrow> ((jsstring \<times> jsval) list \<times> jsstring) option"
where
  "parseValue 0 inp = None"
| "parseValue (Suc n) inp =
     (case skipSpace inp of
        [] \<Rightarrow> None
      | ch # rest \<Rightarrow>
          if ch = 123 then
            (case skipSpace rest of
               [] \<Rightarrow> None
             | ch' # rest' \<Rightarrow>
                 if ch' = 125 then Some (JObj [], rest')
                 else (case parseMembers n rest of
                         None \<Rightarrow> None
                       | Some (members, r) \<Rightarrow> Some (JObj members, r)))
          else if ch = 91 then
            (case skipSpace rest of
               [] \<Rightarrow> None
             | ch' # rest' \<Rightarrow>
                 if ch' = 93 then Some (JArr [], rest')
                 else (case parseElements n rest of
                         None \<Rightarrow> None
                       | Some (elements, r) \<Rightarrow> Some (JArr elements, r)))
          else if ch = 34 then
            (case parseStringBody rest of
               None \<Rightarrow> None
             | Some (str, r) \<Rightarrow> Some (JStr str, r))
          else if take 4 (ch # rest) = ascii ''true'' then Some (JBool True, drop 4 (ch # rest))
          else if take 5 (ch # rest) = ascii ''false'' then Some (JBool False, drop 5 (ch # rest))
          else if take 4 (ch # rest) = ascii ''null'' then Some (JNull, drop 4 (ch # rest))
          else (case parseNumber (ch # rest) of
                  None \<Rightarrow> None
                | Some (num, r) \<Rightarrow> Some (JNum num, r)))"
| "parseElements 0 inp = None"
| "parseElements (Suc n) inp =
     (case parseValue n inp of
        None \<Rightarrow> None
      | Some (v, r) \<Rightarrow>
          (case skipSpace r of
             [] \<Rightarrow> None
           | ch # rest \<Rightarrow>
               if ch = 93 then Some ([v], rest)
               else if ch = 44 then
                 (case parseElements n rest of
                    None \<Rightarrow> None
                  | Some (vs, r') \<Rightarrow> Some (v # vs, r'))
               else None))"
| "parseMembers 0 inp = None"
| "parseMembers (Suc n) inp =
     (case skipSpace inp of
        [] \<Rightarrow> None
      | ch # rest \<Rightarrow>
          if ch \<noteq> 34 then None
          else (case parseStringBody rest of
                  None \<Rightarrow> None
                | Some (key, r) \<Rightarrow>
                    (case skipSpace r of
                       [] \<Rightarrow> None
                     | colon # r' \<Rightarrow>
                         if colon \<noteq> 58 then None
                         else (case parseValue n r' of
                                 None \<Rightarrow> None
                               | Some (v, r2) \<Rightarrow>
                                   (case skipSpace r2 of
                                      [] \<Rightarrow> None
                                    | ch' # rest' \<Rightarrow>
                                        if ch' = 125 then Some ([(key, v)], rest')
                                        else if ch' = 44 then
                                          (case parseMembers n rest' of
                                             None \<Rightarrow> None
                                           | Some (members, r3) \<Rightarrow>
                                               Some ((key, v) # members, r3))
                                        else None)))))"

text \<open>\<open>JSON.parse\<close>: \<open>None\<close> is the SyntaxError it throws.\<close>

definition JSON_parse :: "jsstring \<Rightarrow> jsval option" where
  "JSON_parse inp =
     (case parseValue (Suc (length inp)) inp of
        None \<Rightarrow> None
      | Some (v, rest) \<Rightarrow> if skipSpace rest = [] then Some v else None)"

section \<open>Phase 3: the watermark codec and the payload distributor\<close>

definition ZERO_BIT :: nat where
  "ZERO_BIT = 8203"

definition ONE_BIT :: nat where
  "ONE_BIT = 8204"

definition SEPARATOR :: nat where
  "SEPARATOR = 8205"

text \<open>
  \<open>WatermarkData\<close> as its interface types it (what \<open>embedWatermark\<close> receives). The field
  \<open>vault\<close> is \<open>wvault\<close> here.
\<close>

record WatermarkData =
  fingerprintHash :: jsstring
  wvault :: FuzzyVault
  timestamp :: int
  contentHash :: jsstring

text \<open>
  What \<open>extractWatermark\<close> builds: its fields hold whatever the parsed JSON held, so they
  are JSON values. The vault it builds has no points and no polynomial; \<open>ex_secret\<close> is the
  secret of that vault.
\<close>

record ExtractedWatermark =
  ex_fingerprintHash :: jsval
  ex_secret :: jsval
  ex_timestamp :: jsval
  ex_contentHash :: jsval

record WatermarkEmbeddingResult =
  watermarkedText :: jsstring
  invisiblePayload :: jsstring

subsection \<open>dataToBinary and binaryToData\<close>

definition dataToBinary :: "UltraCompactWatermarkData \<Rightarrow> jsstring" where
  "dataToBinary d =
     concat (map (\<lambda>charCode. padStart 8 48 (natToString 2 charCode)) (JSON_stringify d))"

text \<open>\<open>String.fromCharCode\<close>: NaN gives code unit 0, a number is taken modulo \<open>2\<^sup>1\<^sup>6\<close>.\<close>

definition fromCharCode :: "int option \<Rightarrow> nat" where
  "fromCharCode v = (case v of None \<Rightarrow> 0 | Some i \<Rightarrow> nat (i mod 65536))"

function binaryToChars :: "jsstring \<Rightarrow> jsstring" where
  "binaryToChars binary =
     (if binary = [] then []
      else fromCharCode (parseInt (take 8 binary) 2) # binaryToChars (drop 8 binary))"
  by pat_completeness auto
termination
  by (relation "measure length") auto

declare binaryToChars.simps [simp del]

definition binaryToData :: "jsstring \<Rightarrow> jsval option" where
  "binaryToData binary = JSON_parse (binaryToChars binary)"

subsection \<open>binaryToInvisibleText and extractFromZeroWidth\<close>

definition binaryToInvisibleText :: "jsstring \<Rightarrow> jsstring" where
  "binaryToInvisibleText binary =
     concat (map (\<lambda>i. (if binary ! i = 49 then [ONE_BIT] else [ZERO_BIT])
                       @ (if (i + 1) mod 8 = 0 \<and> i \<noteq> length binary - 1 then [SEPARATOR] else []))
                 [0 ..< length binary])"

text \<open>The loop of \<open>extractFromZeroWidth\<close> that fills \<open>collected\<close>, then its result.\<close>

definition collectBits :: "jsstring \<Rightarrow> jsstring" where
  "collectBits txt =
     concat (map (\<lambda>ch. if ch = ZERO_BIT then [48] else if ch = ONE_BIT then [49] else []) txt)"

definition extractFromZeroWidth :: "jsstring \<Rightarrow> jsstring option" where
  "extractFromZeroWidth txt =
     (let collected = collectBits txt
      in if collected = [] then None else Some collected)"

subsection \<open>distributeInvisiblePayload\<close>

text \<open>
  \<open>text.split(/(\s+)/)\<close>: the runs of non-space and of white space in turn, beginning and
  ending with a run of non-space that may be empty. The first argument says whether the
  current run is white space.
\<close>

fun splitRuns :: "bool \<Rightarrow> jsstring \<Rightarrow> jsstring \<Rightarrow> jsstring list" where
  "splitRuns inSpace cur [] = (if inSpace then [cur, []] else [cur])"
| "splitRuns inSpace cur (ch # rest) =
     (if isSpace ch = inSpace then splitRuns inSpace (cur @ [ch]) rest
      else cur # splitRuns (\<not> inSpace) [ch] rest)"

definition splitOnSpace :: "jsstring \<Rightarrow> jsstring list" where
  "splitOnSpace txt = splitRuns False [] txt"

text \<open>\<open>tokens[i].trim().length > 0 && !/^\s+$/.test(tokens[i])\<close>\<close>

definition isWordToken :: "jsstring \<Rightarrow> bool" where
  "isWordToken token \<longleftrightarrow> length (trim token) > 0 \<and> \<not> (token \<noteq> [] \<and> list_all isSpace token)"

text \<open>
  \<open>pickRandomWordSlots\<close>. \<open>rnd attempt i\<close> is element \<open>i\<close> of the buffer that
  \<open>crypto.getRandomValues\<close> filled on that attempt. The set keeps its insertion order.
  \<open>crypto.getRandomValues\<close> refuses a buffer above 65536 bytes, which is a \<open>count\<close> above
  8192 and takes a payload of more than 262144 characters; the draws here have no such
  limit.
\<close>

definition setAdd :: "nat \<Rightarrow> nat list \<Rightarrow> nat list" where
  "setAdd v selected = (if v \<in> set selected then selected else selected @ [v])"

fun pickFromBuffer :: "nat list \<Rightarrow> nat \<Rightarrow> nat list \<Rightarrow> nat list \<Rightarrow> nat list" where
  "pickFromBuffer wordIndexes count [] selected = selected"
| "pickFromBuffer wordIndexes count (r # buffer) selected =
     (if length selected < count
      then pickFromBuffer wordIndexes count buffer
             (setAdd (wordIndexes ! (r mod length wordIndexes)) selected)
      else selected)"

function pickAttempts ::
  "(nat \<Rightarrow> nat \<Rightarrow> nat) \<Rightarrow> nat list \<Rightarrow> nat \<Rightarrow> nat \<Rightarrow> nat list \<Rightarrow> nat list" where
  "pickAttempts rnd wordIndexes count attempts selected =
     (if length selected < count \<and> attempts < count * 5
      then pickAttempts rnd wordIndexes count (attempts + 1)
             (pickFromBuffer wordIndexes count (map (rnd attempts) [0 ..< count * 2]) selected)
      else selected)"
  by pat_completeness auto
termination
  by (relation "measure (\<lambda>(rnd, wordIndexes, count, attempts, selected). count * 5 - attempts)")
     auto

declare pickAttempts.simps [simp del]

definition pickRandomWordSlots :: "(nat \<Rightarrow> nat \<Rightarrow> nat) \<Rightarrow> nat list \<Rightarrow> nat \<Rightarrow> nat list" where
  "pickRandomWordSlots rnd wordIndexes count =
     (if count \<ge> length wordIndexes then wordIndexes
      else pickAttempts rnd wordIndexes count 0 [])"

text \<open>The loop over the selected slots: the tokens and \<open>payloadIndex\<close> are its state.\<close>

fun appendChunks ::
  "jsstring \<Rightarrow> nat \<Rightarrow> nat list \<Rightarrow> jsstring list \<times> nat \<Rightarrow> jsstring list \<times> nat" where
  "appendChunks payload chunkSize [] (tokens, payloadIndex) = (tokens, payloadIndex)"
| "appendChunks payload chunkSize (slot # slots) (tokens, payloadIndex) =
     (if payloadIndex \<ge> length payload then (tokens, payloadIndex)
      else (let chunk = take chunkSize (drop payloadIndex payload)
            in appendChunks payload chunkSize slots
                 (tokens[slot := tokens ! slot @ chunk], payloadIndex + length chunk)))"

text \<open>
  \<open>maxSlots\<close>, \<open>minSlots\<close> and \<open>slotsToUse\<close> are the function \<open>slotsToUse\<close> above.
  \<open>pickRandomWordSlots\<close> never returns an empty array here; were it empty, the chunk size
  would be infinite, no chunk would be appended and the join would give the text back.
\<close>

definition distributeInvisiblePayload ::
  "(nat \<Rightarrow> nat \<Rightarrow> nat) \<Rightarrow> jsstring \<Rightarrow> jsstring \<Rightarrow> jsstring" where
  "distributeInvisiblePayload rnd txt payload =
     (if payload = [] then txt
      else
        (let tokens = splitOnSpace txt
         in if length tokens = 0 then payload @ txt
            else
              (let wordIndexes = filter (\<lambda>i. isWordToken (tokens ! i)) [0 ..< length tokens]
               in if length wordIndexes = 0 then payload @ txt
                  else
                    (let slotsToUse' = slotsToUse (length wordIndexes) (length payload);
                         selectedSlots = sort (pickRandomWordSlots rnd wordIndexes slotsToUse')
                     in if selectedSlots = [] then concat tokens
                        else
                          (let chunkSize = max 8 (ceilDiv (length payload) (length selectedSlots));
                               (tokens', payloadIndex) =
                                  appendChunks payload chunkSize selectedSlots (tokens, 0);
                               lastSlot = last selectedSlots;
                               tokens'' =
                                 (if payloadIndex < length payload
                                  then tokens'[lastSlot := tokens' ! lastSlot @ drop payloadIndex payload]
                                  else tokens')
                           in concat tokens'')))))"

definition embedWithZeroWidth ::
  "(nat \<Rightarrow> nat \<Rightarrow> nat) \<Rightarrow> jsstring \<Rightarrow> jsstring \<Rightarrow> jsstring" where
  "embedWithZeroWidth rnd txt payload = distributeInvisiblePayload rnd txt payload"

subsection \<open>embedWatermark and extractWatermark\<close>

definition embedWatermark ::
  "(nat \<Rightarrow> nat \<Rightarrow> nat) \<Rightarrow> jsstring \<Rightarrow> WatermarkData \<Rightarrow> WatermarkEmbeddingResult" where
  "embedWatermark rnd txt watermarkData =
     (let ultraCompactData = \<lparr>uc_f = fingerprintHash watermarkData,
                               uc_s = secret (wvault watermarkData),
                               uc_t = timestamp watermarkData,
                               uc_c = contentHash watermarkData\<rparr>;
          watermarkBinary = dataToBinary ultraCompactData;
          payload = binaryToInvisibleText watermarkBinary
      in \<lparr>watermarkedText = embedWithZeroWidth rnd txt payload, invisiblePayload = payload\<rparr>)"

text \<open>
  \<open>extractWatermark\<close>: \<open>None\<close> is \<open>null\<close>, returned when no bit was found and when the
  \<open>try\<close> block caught the SyntaxError of \<open>JSON.parse\<close> or the TypeError of a property read
  on \<open>null\<close>.
\<close>

definition extractWatermark :: "jsstring \<Rightarrow> ExtractedWatermark option" where
  "extractWatermark txt =
     (case extractFromZeroWidth txt of
        None \<Rightarrow> None
      | Some watermarkBinary \<Rightarrow>
          if watermarkBinary = [] then None
          else
            (case binaryToData watermarkBinary of
               None \<Rightarrow> None
             | Some ultraCompactData \<Rightarrow>
                 (case (getProp ultraCompactData (ascii ''f''),
                        getProp ultraCompactData (ascii ''s''),
                        getProp ultraCompactData (ascii ''t''),
                        getProp ultraCompactData (ascii ''c'')) of
                    (Some fv, Some sv, Some tv, Some cv) \<Rightarrow>
                      Some \<lparr>ex_fingerprintHash = fv, ex_secret = sv, ex_timestamp = tv,
                            ex_contentHash = (if truthy cv then cv else JStr [])\<rparr>
                  | _ \<Rightarrow> None)))"

section \<open>The encryption service\<close>

text \<open>\<open>ToInt32\<close>, which \<open><<\<close> and \<open>&\<close> apply to their operands and their result.\<close>

definition toInt32 :: "int \<Rightarrow> int" where
  "toInt32 z = (z + 2147483648) mod 4294967296 - 2147483648"

definition simpleHash :: "jsstring \<Rightarrow> jsstring" where
  "simpleHash str =
     intToString 16 \<bar>foldl (\<lambda>hash ch. toInt32 (toInt32 (hash * 32) - hash + int ch)) 0 str\<bar>"

text \<open>\<open>replace(/\s+/g, ' ')\<close>: every run of white space becomes one space.\<close>

fun collapseSpace :: "bool \<Rightarrow> jsstring \<Rightarrow> jsstring" where
  "collapseSpace inSpace [] = []"
| "collapseSpace inSpace (ch # rest) =
     (if isSpace ch then (if inSpace then collapseSpace True rest else 32 # collapseSpace True rest)
      else ch # collapseSpace False rest)"

definition hashContent :: "jsstring \<Rightarrow> jsstring" where
  "hashContent content' = simpleHash (collapseSpace False (trim content'))"

text \<open>
  \<open>hashMinutiae\<close>. The decimal text of the angle, a double, is the argument \<open>angleText\<close>
  (\<open>Number.prototype.toString\<close>).
\<close>

definition joinWith :: "jsstring \<Rightarrow> jsstring list \<Rightarrow> jsstring" where
  "joinWith sep parts = (case parts of [] \<Rightarrow> [] | p # ps \<Rightarrow> p @ concat (map (\<lambda>q. sep @ q) ps))"

definition typeName :: "minutia_type \<Rightarrow> jsstring" where
  "typeName ty = (case ty of Ending \<Rightarrow> ascii ''ending'' | Bifurcation \<Rightarrow> ascii ''bifurcation'')"

definition hashMinutiae :: "(real \<Rightarrow> jsstring) \<Rightarrow> MinutiaePoint list \<Rightarrow> jsstring" where
  "hashMinutiae angleText minutiae =
     simpleHash (joinWith (ascii ''|'')
       (map (\<lambda>m. intToString 10 (px m) @ ascii '','' @ intToString 10 (py m) @ ascii '',''
                  @ angleText (angle m) @ ascii '','' @ typeName (mtype m)) minutiae))"

definition getUserVisibleText :: "jsstring \<Rightarrow> jsstring" where
  "getUserVisibleText watermarked =
     filter (\<lambda>ch. ch \<noteq> ZERO_BIT \<and> ch \<noteq> ONE_BIT \<and> ch \<noteq> SEPARATOR) watermarked"

text \<open>
  \<open>verifyDocument\<close>. The document is a string, or a file whose text
  \<open>readWatermarkedDocument\<close> returned or failed to return. Every exception ends in the
  \<open>catch\<close> that returns \<open>false\<close>.
\<close>

datatype document = DocString jsstring | DocFile "js_error + jsstring"

definition readEncryptedText :: "document \<Rightarrow> js_error + jsstring" where
  "readEncryptedText encryptedDocument =
     (case encryptedDocument of DocString str \<Rightarrow> Inr str | DocFile res \<Rightarrow> res)"

definition verifyDocument :: "(real \<Rightarrow> jsstring) \<Rightarrow> fingerprint \<Rightarrow> document \<Rightarrow> bool" where
  "verifyDocument angleText fingerprintFile encryptedDocument =
     (case readEncryptedText encryptedDocument of
        Inl err \<Rightarrow> False
      | Inr encryptedText \<Rightarrow>
          (case extractWatermark encryptedText of
             None \<Rightarrow> False
           | Some watermarkData \<Rightarrow>
               (let visibleContent = getUserVisibleText encryptedText;
                    currentContentHash = hashContent visibleContent
                in if truthy (ex_contentHash watermarkData)
                      \<and> JStr currentContentHash \<noteq> ex_contentHash watermarkData
                   then False
                   else
                     (case processFingerprint fingerprintFile of
                        Inl err \<Rightarrow> False
                      | Inr minutiae \<Rightarrow>
                          (let currentHash = hashMinutiae angleText minutiae
                           in if JStr currentHash \<noteq> ex_fingerprintHash watermarkData then False
                              else True)))))"

section \<open>Notions the properties are stated with\<close>

text \<open>The Euclidean distance of two minutiae, in pixels.\<close>

definition distance :: "MinutiaePoint \<Rightarrow> MinutiaePoint \<Rightarrow> real" where
  "distance a b = sqrt (real_of_int ((px a - px b)\<^sup>2 + (py a - py b)\<^sup>2))"

text \<open>A list of minutiae any two of which are at least 5 pixels apart.\<close>

definition spaced :: "MinutiaePoint list \<Rightarrow> bool" where
  "spaced ms \<longleftrightarrow> (\<forall>i j. i < j \<and> j < length ms \<longrightarrow> distance (ms ! i) (ms ! j) \<ge> 5)"

text \<open>
  Normalization in the words of the specification: in scan order, keep a candidate only if
  it is at least 5 pixels from every point kept so far, and stop once 80 points are kept.
\<close>

fun greedyKeep :: "MinutiaePoint list \<Rightarrow> MinutiaePoint list \<Rightarrow> MinutiaePoint list" where
  "greedyKeep kept [] = kept"
| "greedyKeep kept (candidate # rest) =
     (if length kept \<ge> 80 then kept
      else if list_all (\<lambda>k. distance k candidate \<ge> 5) kept
           then greedyKeep (kept @ [candidate]) rest
           else greedyKeep kept rest)"

text \<open>The three marker characters, and strings without them or made of them.\<close>

definition isMarker :: "nat \<Rightarrow> bool" where
  "isMarker ch \<longleftrightarrow> ch = 8203 \<or> ch = 8204 \<or> ch = 8205"

definition markerFree :: "jsstring \<Rightarrow> bool" where
  "markerFree str = list_all (\<lambda>ch. \<not> isMarker ch) str"

definition markersOnly :: "jsstring \<Rightarrow> bool" where
  "markersOnly str = list_all isMarker str"

text \<open>
  A well-formed watermark record: its three strings are made of code units below 256, as
  the hexadecimal hashes and secrets of the service are, and its timestamp is an integer
  number of milliseconds of magnitude \<open>2\<^sup>5\<^sup>3\<close> at most, which a JavaScript number holds
  exactly and prints digit for digit.
\<close>

definition latin1 :: "jsstring \<Rightarrow> bool" where
  "latin1 str = list_all (\<lambda>ch. ch < 256) str"

definition wellFormedRecord :: "WatermarkData \<Rightarrow> bool" where
  "wellFormedRecord r \<longleftrightarrow>
     latin1 (fingerprintHash r) \<and> latin1 (secret (wvault r)) \<and> latin1 (contentHash r)
     \<and> \<bar>timestamp r\<bar> \<le> 2 ^ 53"

text \<open>The record \<open>extractWatermark\<close> returns when it reproduces \<open>r\<close> field by field.\<close>

definition reproduced :: "WatermarkData \<Rightarrow> ExtractedWatermark" where
  "reproduced r =
     \<lparr>ex_fingerprintHash = JStr (fingerprintHash r), ex_secret = JStr (secret (wvault r)),
      ex_timestamp = JNum (real_of_int (timestamp r)), ex_contentHash = JStr (contentHash r)\<rparr>"


subsection \<open>Sample inputs\<close>

definition sampleMinutia :: "nat \<Rightarrow> MinutiaePoint" where
  "sampleMinutia i = \<lparr>px = 10 + 7 * int i, py = 20 + 9 * int i, angle = 45, mtype = Ending\<rparr>"

definition sampleMinutiae :: "nat \<Rightarrow> MinutiaePoint list" where
  "sampleMinutiae n = map sampleMinutia [0 ..< n]"

definition sampleRecord :: WatermarkData where
  "sampleRecord =
     \<lparr>fingerprintHash = ascii ''test123'',
      wvault = \<lparr>points = [], secret = ascii ''testsecret'', polynomial = []\<rparr>,
      timestamp = 1700000000000, contentHash = ascii ''7fa3''\<rparr>"

text \<open>
  The vault that \<open>generateVault\<close> builds from the twelve sample minutiae, the secret bytes
  1, 2, 3, 4 and draws that are all 0.
\<close>

definition sampleVault :: FuzzyVault where
  "sampleVault =
     \<lparr>points = [(16, 117), (78, 232), (140, 117), (202, 107), (13, 35), (75, 236),
                (137, 41), (199, 36), (10, 54), (72, 179), (134, 244), (205, 190)],
      secret = ascii ''01020304'', polynomial = [1, 2, 3, 4]\<rparr>"


text \<open>A 3 by 3 image whose nine pixels are all (200, 200, 200, 255).\<close>

definition sampleImage :: "nat list" where
  "sampleImage = concat (replicate 9 [200, 200, 200, 255])"

text \<open>
  A document as \<open>encryptDocument\<close> writes it: the text \<open>Hi there\<close> with the record of the
  twelve sample minutiae (whose angle prints as \<open>45\<close>) distributed through it.
\<close>

definition sampleAngleText :: "real \<Rightarrow> jsstring" where
  "sampleAngleText a = ascii ''45''"

definition sampleOwnerRecord :: WatermarkData where
  "sampleOwnerRecord =
     \<lparr>fingerprintHash = hashMinutiae sampleAngleText (sampleMinutiae 12),
      wvault = sampleVault, timestamp = 1700000000000,
      contentHash = hashContent (ascii ''Hi there'')\<rparr>"

definition sampleArtifact :: jsstring where
  "sampleArtifact =
     watermarkedText (embedWatermark (\<lambda>a i. i) (ascii ''Hi there'') sampleOwnerRecord)"

section \<open>Slot counts\<close>

lemma slotsToUse_eq_spec: "slotsToUse n p = specSlotCount n p"
  by (simp add: slotsToUse_def specSlotCount_def min.commute)

lemma determineSlotCount_eq: "determineSlotCount n p = min n (max (max 1 (ceilDiv p 32)) (max 1 (floor03 n)))"
proof -
  have "floor03 n \<le> n" by (simp add: floor03_def)
  then show ?thesis
    by (cases "n = 0") (auto simp: determineSlotCount_def Let_def min_def max_def)
qed

text \<open>
  C9. The DOCX distributor does not select the number of slots of the plain-text
  distributor: for 10 candidate slots and a payload of 539 characters the plain-text
  distributor and the formula of the specification give 3, and \<open>determineSlotCount\<close>
  gives 10.
\<close>

theorem determineSlotCount_differs:
  "determineSlotCount 10 539 = 10 \<and> slotsToUse 10 539 = 3 \<and> specSlotCount 10 539 = 3"
  by (simp add: determineSlotCount_def slotsToUse_def specSlotCount_def floor03_def ceilDiv_def)

section \<open>Normalization and the quality gate\<close>

lemma sqrt_25: "sqrt 25 = 5"
  by (rule real_sqrt_unique) simp_all

lemma tooClose_iff_distance: "tooClose a b \<longleftrightarrow> distance a b < 5"
proof -
  let ?d = "(px a - px b)\<^sup>2 + (py a - py b)\<^sup>2"
  have "sqrt (real_of_int ?d) < sqrt 25 \<longleftrightarrow> real_of_int ?d < 25"
    by (rule real_sqrt_less_iff)
  also have "\<dots> \<longleftrightarrow> ?d < 25"
    by linarith
  finally show ?thesis
    by (simp add: tooClose_def distance_def sqrt_25)
qed

lemma distance_commute: "distance a b = distance b a"
  by (simp add: distance_def power2_commute)

lemma spaced_Nil: "spaced []"
  by (simp add: spaced_def)

lemma spaced_snoc:
  assumes "spaced ms" and "\<forall>k \<in> set ms. \<not> tooClose k p"
  shows "spaced (ms @ [p])"
  unfolding spaced_def
proof (intro allI impI)
  fix i j
  assume ij: "i < j \<and> j < length (ms @ [p])"
  show "5 \<le> distance ((ms @ [p]) ! i) ((ms @ [p]) ! j)"
  proof (cases "j < length ms")
    case True
    with ij assms(1) show ?thesis
      by (simp add: spaced_def nth_append)
  next
    case False
    with ij have j: "j = length ms" and i: "i < length ms" by auto
    from i assms(2) have "\<not> tooClose (ms ! i) p" by simp
    then show ?thesis
      using i j by (simp add: nth_append tooClose_iff_distance)
  qed
qed

lemma normalizeLoop_length:
  "length filtered < MAX_MINUTIAE \<Longrightarrow> length (normalizeLoop ms filtered) \<le> MAX_MINUTIAE"
proof (induction ms arbitrary: filtered)
  case Nil
  then show ?case by simp
next
  case (Cons p ms)
  show ?case
  proof (cases "list_ex (\<lambda>existing. tooClose existing p) filtered")
    case True
    with Cons show ?thesis by (simp add: Let_def)
  next
    case False
    show ?thesis
    proof (cases "MAX_MINUTIAE \<le> Suc (length filtered)")
      case True
      with False Cons.prems show ?thesis by (simp add: Let_def)
    next
      case no: False
      then have "length (filtered @ [p]) < MAX_MINUTIAE" by simp
      from Cons.IH [OF this] False no show ?thesis by (simp add: Let_def)
    qed
  qed
qed

lemma normalizeLoop_spaced:
  "spaced filtered \<Longrightarrow> spaced (normalizeLoop ms filtered)"
proof (induction ms arbitrary: filtered)
  case Nil
  then show ?case by simp
next
  case (Cons p ms)
  show ?case
  proof (cases "list_ex (\<lambda>existing. tooClose existing p) filtered")
    case True
    with Cons show ?thesis by (simp add: Let_def)
  next
    case False
    then have "\<forall>k \<in> set filtered. \<not> tooClose k p"
      by (simp add: list_ex_iff)
    with Cons.prems have sp: "spaced (filtered @ [p])"
      by (rule spaced_snoc)
    from Cons.IH [OF sp] sp False show ?thesis by (simp add: Let_def)
  qed
qed

lemma normalizeLoop_greedy:
  "length filtered < MAX_MINUTIAE \<Longrightarrow> normalizeLoop ms filtered = greedyKeep filtered ms"
proof (induction ms arbitrary: filtered)
  case Nil
  then show ?case by simp
next
  case (Cons p ms)
  have close: "list_ex (\<lambda>existing. tooClose existing p) filtered
               \<longleftrightarrow> \<not> list_all (\<lambda>k. distance k p \<ge> 5) filtered"
    by (simp add: list_ex_iff list_all_iff tooClose_iff_distance not_le)
  have lt: "\<not> 80 \<le> length filtered"
    using Cons.prems by (simp add: MAX_MINUTIAE_def)
  show ?case
  proof (cases "list_ex (\<lambda>existing. tooClose existing p) filtered")
    case True
    with Cons close lt show ?thesis by (simp add: Let_def)
  next
    case False
    show ?thesis
    proof (cases "MAX_MINUTIAE \<le> Suc (length filtered)")
      case True
      then have full: "80 \<le> length (filtered @ [p])"
        by (simp add: MAX_MINUTIAE_def)
      have "greedyKeep (filtered @ [p]) ms = filtered @ [p]"
        using full by (cases ms) simp_all
      with False True close lt show ?thesis by (simp add: Let_def)
    next
      case no: False
      then have "length (filtered @ [p]) < MAX_MINUTIAE" by simp
      from Cons.IH [OF this] False no close lt show ?thesis by (simp add: Let_def)
    qed
  qed
qed

text \<open>
  C7. The list that normalization produces has at most 80 points, any two of its points
  (at different positions) are at Euclidean distance at least 5, and it is the list that
  greedy keeping in scan order produces.
\<close>

theorem normalizeMinutiae_invariant:
  "length (normalizeMinutiae ms) \<le> 80
   \<and> (\<forall>i j. i < j \<and> j < length (normalizeMinutiae ms)
        \<longrightarrow> distance (normalizeMinutiae ms ! i) (normalizeMinutiae ms ! j) \<ge> 5)
   \<and> normalizeMinutiae ms = greedyKeep [] ms"
proof -
  have "length (normalizeMinutiae ms) \<le> MAX_MINUTIAE"
    unfolding normalizeMinutiae_def by (rule normalizeLoop_length) (simp add: MAX_MINUTIAE_def)
  moreover have "spaced (normalizeMinutiae ms)"
    unfolding normalizeMinutiae_def by (rule normalizeLoop_spaced) (rule spaced_Nil)
  moreover have "normalizeMinutiae ms = greedyKeep [] ms"
    unfolding normalizeMinutiae_def by (rule normalizeLoop_greedy) (simp add: MAX_MINUTIAE_def)
  ultimately show ?thesis
    by (simp add: spaced_def MAX_MINUTIAE_def)
qed

lemma sampleMinutiae_2: "normalizeMinutiae (sampleMinutiae 2) = sampleMinutiae 2"
  by (simp add: normalizeMinutiae_def sampleMinutiae_def sampleMinutia_def tooClose_def
      MAX_MINUTIAE_def Let_def upt_conv_Cons)

theorem normalizeMinutiae_invariant_witness:
  "length (normalizeMinutiae (sampleMinutiae 2)) = 2
   \<and> distance (sampleMinutiae 2 ! 0) (sampleMinutiae 2 ! 1) \<ge> 5
   \<and> normalizeMinutiae (sampleMinutiae 2) = greedyKeep [] (sampleMinutiae 2)"
proof -
  have len: "length (sampleMinutiae 2) = 2"
    by (simp add: sampleMinutiae_def)
  have "(0::nat) < 1 \<and> 1 < length (normalizeMinutiae (sampleMinutiae 2))"
    by (simp add: sampleMinutiae_2 len)
  with normalizeMinutiae_invariant [of "sampleMinutiae 2"] show ?thesis
    by (simp add: sampleMinutiae_2 len)
qed

lemma sampleMinutia_far:
  assumes "i < j"
  shows "\<not> tooClose (sampleMinutia i) (sampleMinutia j)"
proof -
  define d where "d = int j - int i"
  have "1 \<le> d" using assms by (simp add: d_def)
  then have sq: "1 \<le> d\<^sup>2" by (rule one_le_power)
  have dx: "px (sampleMinutia i) - px (sampleMinutia j) = - (7 * d)"
    by (simp add: sampleMinutia_def d_def)
  have dy: "py (sampleMinutia i) - py (sampleMinutia j) = - (9 * d)"
    by (simp add: sampleMinutia_def d_def)
  have "(- (7 * d))\<^sup>2 + (- (9 * d))\<^sup>2 = 130 * d\<^sup>2"
    by (simp add: power_mult_distrib)
  with sq show ?thesis
    unfolding tooClose_def dx dy by simp
qed

lemma normalizeLoop_sample:
  "n \<le> 80 \<Longrightarrow> k \<le> n \<Longrightarrow>
   normalizeLoop (map sampleMinutia [k ..< n]) (map sampleMinutia [0 ..< k])
   = map sampleMinutia [0 ..< n]"
proof (induction "n - k" arbitrary: k)
  case 0
  then show ?case by simp
next
  case (Suc d)
  then have k: "k < n" by simp
  have far: "\<not> list_ex (\<lambda>existing. tooClose existing (sampleMinutia k)) (map sampleMinutia [0 ..< k])"
    by (simp add: list_ex_iff sampleMinutia_far)
  have step: "map sampleMinutia [0 ..< k] @ [sampleMinutia k] = map sampleMinutia [0 ..< Suc k]"
    by simp
  show ?case
  proof (cases "Suc k = n")
    case True
    then have "[k ..< n] = [k]" by (simp add: upt_rec)
    moreover have "map sampleMinutia [0 ..< k] @ [sampleMinutia k] = map sampleMinutia [0 ..< n]"
      using step True by simp
    ultimately show ?thesis
      using far by (simp add: Let_def del: upt_Suc)
  next
    case False
    with k have k': "Suc k \<le> n" and lt: "Suc k < 80"
      using Suc.prems by simp_all
    have d: "d = n - Suc k" using Suc.hyps(2) by simp
    from Suc.hyps(1) [OF d Suc.prems(1) k']
    have "normalizeLoop (map sampleMinutia [Suc k ..< n]) (map sampleMinutia [0 ..< Suc k])
          = map sampleMinutia [0 ..< n]" .
    moreover have "[k ..< n] = k # [Suc k ..< n]"
      using k by (simp add: upt_rec)
    ultimately show ?thesis
      using far lt step by (simp add: Let_def MAX_MINUTIAE_def del: upt_Suc)
  qed
qed

lemma normalizeMinutiae_sample:
  "n \<le> 80 \<Longrightarrow> normalizeMinutiae (sampleMinutiae n) = sampleMinutiae n"
  using normalizeLoop_sample [of n 0] by (simp add: normalizeMinutiae_def sampleMinutiae_def)

text \<open>
  C6. On an image whose minutiae were extracted, \<open>processFingerprint\<close> rejects exactly when
  fewer than 12 minutiae remain after normalization, and resolves with the normalized
  minutiae otherwise; the message of the rejection holds the detected count and the
  minimum 12 in decimal digits.
\<close>

theorem processFingerprint_gate:
  "processFingerprint (Extracted candidates) =
     (if length (normalizeMinutiae candidates) < 12
      then Inl (Error (ascii ''Fingerprint quality insufficient: detected ''
                       @ natToString 10 (length (normalizeMinutiae candidates))
                       @ ascii '' minutiae; at least '' @ ascii ''12''
                       @ ascii '' are required.''))
      else Inr (normalizeMinutiae candidates))"
proof -
  have "natToString 10 MIN_MINUTIAE = ascii ''12''"
    by (simp add: MIN_MINUTIAE_def ascii_def digitChar_def natToString.simps)
  then show ?thesis
    by (simp add: processFingerprint_def qualityMessage_def Let_def MIN_MINUTIAE_def)
qed

theorem processFingerprint_gate_witness:
  "processFingerprint (Extracted (sampleMinutiae 11)) =
     Inl (Error (ascii ''Fingerprint quality insufficient: detected 11 minutiae; at least 12 are required.''))
   \<and> processFingerprint (Extracted (sampleMinutiae 12)) = Inr (sampleMinutiae 12)"
proof -
  have l11: "length (sampleMinutiae 11) = 11" and l12: "length (sampleMinutiae 12) = 12"
    by (simp_all add: sampleMinutiae_def)
  have d11: "natToString 10 11 = ascii ''11''"
    by (simp add: ascii_def digitChar_def natToString.simps)
  have n11: "normalizeMinutiae (sampleMinutiae 11) = sampleMinutiae 11"
    by (rule normalizeMinutiae_sample) simp
  have n12: "normalizeMinutiae (sampleMinutiae 12) = sampleMinutiae 12"
    by (rule normalizeMinutiae_sample) simp
  have "processFingerprint (Extracted (sampleMinutiae 11)) =
     Inl (Error (ascii ''Fingerprint quality insufficient: detected 11 minutiae; at least 12 are required.''))"
    unfolding processFingerprint_gate [of "sampleMinutiae 11"] n11 l11 d11
    by (simp add: ascii_def)
  moreover have "processFingerprint (Extracted (sampleMinutiae 12)) = Inr (sampleMinutiae 12)"
    unfolding processFingerprint_gate [of "sampleMinutiae 12"] n12 l12
    by simp
  ultimately show ?thesis
    by simp
qed

section \<open>The invisible payload\<close>

lemma binaryToInvisibleText_markers:
  "set (binaryToInvisibleText binary) \<subseteq> {8203, 8204, 8205}"
  by (auto simp: binaryToInvisibleText_def ZERO_BIT_def ONE_BIT_def SEPARATOR_def
      split: if_splits)

text \<open>
  C10. Whatever the record, the text and the random draws, every character of the
  invisible payload of \<open>embedWatermark\<close> is U+200B, U+200C or U+200D.
\<close>

theorem invisiblePayload_markers:
  "set (invisiblePayload (embedWatermark rnd txt watermarkData)) \<subseteq> {8203, 8204, 8205}"
  by (simp add: embedWatermark_def Let_def binaryToInvisibleText_markers)

theorem invisiblePayload_markers_witness:
  "set (invisiblePayload (embedWatermark (\<lambda>a i. i) (ascii ''Hi'') sampleRecord))
     \<subseteq> {8203, 8204, 8205}"
  by (rule invisiblePayload_markers)

section \<open>The median filter\<close>

lemma filterPixel_length: "length (filterPixel data width y x filtered) = length filtered"
  by (simp add: filterPixel_def Let_def)

lemma fold_filterPixel_length:
  "length (fold (filterPixel data width y) xs filtered) = length filtered"
  by (induction xs arbitrary: filtered) (simp_all add: filterPixel_length)

lemma applyMedianFilter_length: "length (applyMedianFilter data width height) = length data"
proof -
  have "length (fold (\<lambda>y filtered. fold (filterPixel data width y) [1 ..< width - 1] filtered)
                  ys filtered) = length filtered" for ys filtered
    by (induction ys arbitrary: filtered) (simp_all add: fold_filterPixel_length)
  then show ?thesis
    by (simp add: applyMedianFilter_def)
qed

lemma pixel_index_inj:
  assumes "(y * w + x) * 4 + c = (y' * w + x') * 4 + c'"
    and "c < 4" and "c' < 4" and "x < w" and "x' < w"
  shows "x = x' \<and> y = y' \<and> c = (c'::nat)"
proof -
  from assms(1-3) have cc: "c = c'" and lin: "y * w + x = y' * w + x'"
    by presburger+
  from lin have "(y * w + x) mod w = (y' * w + x') mod w" and "(y * w + x) div w = (y' * w + x') div w"
    by simp_all
  with assms(4,5) cc show ?thesis
    by simp
qed

lemma filterPixel_other:
  assumes "\<forall>c < 4. i \<noteq> (y * w + x) * 4 + c"
  shows "filterPixel data w y x filtered ! i = filtered ! i"
proof -
  have "i \<noteq> (y * w + x) * 4" "i \<noteq> (y * w + x) * 4 + 1" "i \<noteq> (y * w + x) * 4 + 2"
    "i \<noteq> (y * w + x) * 4 + 3"
    using assms [rule_format, of 0] assms [rule_format, of 1] assms [rule_format, of 2]
      assms [rule_format, of 3] by simp_all
  then show ?thesis
    by (simp add: filterPixel_def Let_def)
qed

lemma filterPixel_written:
  assumes "(y * w + x) * 4 + 3 < length filtered" and "c < 4"
  shows "filterPixel data w y x filtered ! ((y * w + x) * 4 + c)
         = (if c < 3 then medianOf (neighborValues data w x y)
            else (case readByte data ((y * w + x) * 4 + 3) of None \<Rightarrow> 0 | Some a \<Rightarrow> a))"
proof -
  from assms(2) consider "c = 0" | "c = 1" | "c = 2" | "c = 3"
    by linarith
  then show ?thesis
    using assms(1) by cases (simp_all add: filterPixel_def Let_def)
qed

lemma fold_row_other:
  assumes "\<forall>x \<in> set xs. \<forall>c < 4. i \<noteq> (y * w + x) * 4 + c"
  shows "fold (filterPixel data w y) xs filtered ! i = filtered ! i"
  using assms
proof (induction xs arbitrary: filtered)
  case Nil
  then show ?case by simp
next
  case (Cons x xs)
  then have "fold (filterPixel data w y) xs (filterPixel data w y x filtered) ! i
             = filterPixel data w y x filtered ! i"
    by simp
  also have "\<dots> = filtered ! i"
    using Cons.prems by (intro filterPixel_other) simp
  finally show ?case by simp
qed

lemma fold_rows_other:
  assumes "\<forall>y \<in> set ys. \<forall>x \<in> set xs. \<forall>c < 4. i \<noteq> (y * w + x) * 4 + c"
  shows "fold (\<lambda>y filtered. fold (filterPixel data w y) xs filtered) ys filtered ! i
         = filtered ! i"
  using assms
proof (induction ys arbitrary: filtered)
  case Nil
  then show ?case by simp
next
  case (Cons y ys)
  then have "fold (\<lambda>y filtered. fold (filterPixel data w y) xs filtered) ys
               (fold (filterPixel data w y) xs filtered) ! i
             = fold (filterPixel data w y) xs filtered ! i"
    by simp
  also have "\<dots> = filtered ! i"
    using Cons.prems by (intro fold_row_other) simp
  finally show ?case by simp
qed

lemma fold_row_written:
  assumes "x \<in> set xs" and "distinct xs" and "\<forall>x' \<in> set xs. x' < w"
    and "(y * w + x) * 4 + 3 < length filtered" and "c < 4"
  shows "fold (filterPixel data w y) xs filtered ! ((y * w + x) * 4 + c)
         = filterPixel data w y x filtered ! ((y * w + x) * 4 + c)"
  using assms
proof (induction xs arbitrary: filtered)
  case Nil
  then show ?case by simp
next
  case (Cons a xs)
  show ?case
  proof (cases "a = x")
    case True
    with Cons.prems(2) have "x \<notin> set xs" by simp
    then have "\<forall>x' \<in> set xs. \<forall>c' < 4. (y * w + x) * 4 + c \<noteq> (y * w + x') * 4 + c'"
      using pixel_index_inj [of y w x c y _ _] Cons.prems(3,5) by fastforce
    then have "fold (filterPixel data w y) xs (filterPixel data w y x filtered) ! ((y * w + x) * 4 + c)
               = filterPixel data w y x filtered ! ((y * w + x) * 4 + c)"
      by (rule fold_row_other)
    with True show ?thesis by simp
  next
    case False
    with Cons.prems have x: "x \<in> set xs" and d: "distinct xs" and b: "\<forall>x' \<in> set xs. x' < w"
      and xa: "x < w" "a < w"
      by auto
    have len: "(y * w + x) * 4 + 3 < length (filterPixel data w y a filtered)"
      using Cons.prems(4) by (simp add: filterPixel_length)
    have oth: "\<forall>c' < 4. (y * w + x) * 4 + c \<noteq> (y * w + a) * 4 + c'"
      using pixel_index_inj [of y w x c y a] False xa Cons.prems(5) by fastforce
    have "fold (filterPixel data w y) (a # xs) filtered ! ((y * w + x) * 4 + c)
          = filterPixel data w y x (filterPixel data w y a filtered) ! ((y * w + x) * 4 + c)"
      using Cons.IH [OF x d b len Cons.prems(5)] by simp
    also have "\<dots> = filterPixel data w y x filtered ! ((y * w + x) * 4 + c)"
      using filterPixel_written [OF len Cons.prems(5)] filterPixel_written [OF Cons.prems(4,5)]
      by simp
    finally show ?thesis .
  qed
qed

lemma fold_rows_written:
  assumes "y \<in> set ys" and "distinct ys"
    and "x \<in> set xs" and "distinct xs" and "\<forall>x' \<in> set xs. x' < w"
    and "(y * w + x) * 4 + 3 < length filtered" and "c < 4"
  shows "fold (\<lambda>y filtered. fold (filterPixel data w y) xs filtered) ys filtered
           ! ((y * w + x) * 4 + c)
         = (if c < 3 then medianOf (neighborValues data w x y)
            else (case readByte data ((y * w + x) * 4 + 3) of None \<Rightarrow> 0 | Some a \<Rightarrow> a))"
  using assms(1,2,6)
proof (induction ys arbitrary: filtered)
  case Nil
  then show ?case by simp
next
  case (Cons a ys)
  let ?G = "\<lambda>y filtered. fold (filterPixel data w y) xs filtered"
  let ?i = "(y * w + x) * 4 + c"
  have xw: "x < w"
    using assms(3,5) by simp
  show ?case
  proof (cases "a = y")
    case True
    with Cons.prems(2) have "y \<notin> set ys" by simp
    then have "\<forall>y' \<in> set ys. \<forall>x' \<in> set xs. \<forall>c' < 4. ?i \<noteq> (y' * w + x') * 4 + c'"
      using pixel_index_inj [of y w x c _ _ _] assms(5,7) xw by fastforce
    then have "fold ?G ys (?G y filtered) ! ?i = ?G y filtered ! ?i"
      by (rule fold_rows_other)
    also have "\<dots> = filterPixel data w y x filtered ! ?i"
      using assms(3,4,5) Cons.prems(3) assms(7) by (rule fold_row_written)
    finally show ?thesis
      using True filterPixel_written [OF Cons.prems(3) assms(7)] by simp
  next
    case False
    with Cons.prems have y: "y \<in> set ys" and d: "distinct ys"
      by auto
    have len: "(y * w + x) * 4 + 3 < length (?G a filtered)"
      using Cons.prems(3) by (simp add: fold_filterPixel_length)
    from Cons.IH [OF y d len] show ?thesis
      by simp
  qed
qed

text \<open>
  What \<open>applyMedianFilter\<close> returns for an image of \<open>width\<close> by \<open>height\<close> pixels, component
  by component: every component of a border pixel is 0, whatever the input holds there;
  the three colours of an interior pixel are the median of the first channel over its
  3 by 3 neighbourhood, and its alpha is the one of the input.
\<close>

lemma applyMedianFilter_pixels:
  assumes "length data = 4 * width * height"
    and "x < width" and "y < height" and "c < 4"
  shows "applyMedianFilter data width height ! ((y * width + x) * 4 + c)
         = (if isBorder width height x y then 0
            else if c < 3 then medianOf (neighborValues data width x y)
            else data ! ((y * width + x) * 4 + 3))"
proof -
  let ?i = "(y * width + x) * 4 + c"
  have "y * width + x < Suc y * width"
    using assms(2) by simp
  also have "\<dots> \<le> height * width"
    using assms(3) by (intro mult_le_mono1) simp
  finally have pix: "y * width + x < height * width" .
  then have range3: "(y * width + x) * 4 + 3 < length data" and range: "?i < length data"
    using assms(1,4) by (simp_all add: mult.commute)
  show ?thesis
  proof (cases "isBorder width height x y")
    case True
    have "\<forall>y' \<in> set [1 ..< height - 1]. \<forall>x' \<in> set [1 ..< width - 1]. \<forall>c' < 4.
            ?i \<noteq> (y' * width + x') * 4 + c'"
    proof (intro ballI allI impI notI)
      fix y' x' c'
      assume "y' \<in> set [1 ..< height - 1]" "x' \<in> set [1 ..< width - 1]" "c' < 4"
        and eq: "?i = (y' * width + x') * 4 + c'"
      then have b: "1 \<le> y'" "y' < height - 1" "1 \<le> x'" "x' < width - 1"
        by simp_all
      then have "x' < width" by simp
      with pixel_index_inj [OF eq assms(4) \<open>c' < 4\<close> assms(2)] have "x = x'" "y = y'"
        by simp_all
      with True b show False
        by (simp add: isBorder_def)
    qed
    then have "applyMedianFilter data width height ! ?i = replicate (length data) 0 ! ?i"
      unfolding applyMedianFilter_def by (rule fold_rows_other)
    with True range show ?thesis
      by simp
  next
    case False
    with assms(2,3) have y: "y \<in> set [1 ..< height - 1]" and x: "x \<in> set [1 ..< width - 1]"
      by (auto simp: isBorder_def)
    have xs: "\<forall>x' \<in> set [1 ..< width - 1]. x' < width"
      by auto
    have len: "(y * width + x) * 4 + 3 < length (replicate (length data) (0::nat))"
      using range3 by simp
    have "applyMedianFilter data width height ! ?i
          = (if c < 3 then medianOf (neighborValues data width x y)
             else (case readByte data ((y * width + x) * 4 + 3) of None \<Rightarrow> 0 | Some a \<Rightarrow> a))"
      unfolding applyMedianFilter_def
      using y distinct_upt x distinct_upt xs len assms(4) by (rule fold_rows_written)
    with False range3 show ?thesis
      by (simp add: readByte_def)
  qed
qed

text \<open>
  C8. The filter does not leave the border pixels as they were: it fills a fresh buffer of
  zeroes and writes the interior pixels only (\<open>skeletonize\<close>, two stages later, starts
  from a copy of its input). On the 3 by 3 image whose pixels are all
  (200, 200, 200, 255), the corner pixel (0, 0) of the output is (0, 0, 0, 0), and only
  the centre pixel keeps its value.
\<close>

theorem applyMedianFilter_zeroes_border:
  "isBorder 3 3 0 0
   \<and> take 4 sampleImage = [200, 200, 200, 255]
   \<and> take 4 (applyMedianFilter sampleImage 3 3) = [0, 0, 0, 0]
   \<and> applyMedianFilter sampleImage 3 3
       = replicate 16 0 @ [200, 200, 200, 255] @ replicate 16 0"
  by code_simp

section \<open>The Fuzzy Vault\<close>

lemma byteToHex_length: "2 \<le> length (byteToHex b)"
  by (simp add: byteToHex_def padStart_def)

lemma polynomialToSecret_length: "2 * length poly \<le> length (polynomialToSecret poly)"
proof (induction poly)
  case Nil
  then show ?case by (simp add: polynomialToSecret_def)
next
  case (Cons b poly)
  have "2 \<le> length (byteToHex b)" by (rule byteToHex_length)
  with Cons show ?case by (simp add: polynomialToSecret_def)
qed

lemma lagrangeInterpolation_length: "length (lagrangeInterpolation pts) = length pts"
proof -
  have "length (fold (\<lambda>i coefficients.
                  map (\<lambda>k. jsrem (coefficients ! k + lagrangeTerm pts i ! k) fieldSize)
                      [0 ..< length pts]) is cs) = length cs"
    if "length cs = length pts" for "is" cs
    using that by (induction "is" arbitrary: cs) simp_all
  then show ?thesis
    by (simp add: lagrangeInterpolation_def Let_def)
qed

text \<open>
  Whenever \<open>unlockVault\<close> returns a string, it has two characters or more for every
  matched point, since it interpolates over all of them.
\<close>

lemma unlockVault_length:
  assumes "unlockVault v ms = Some str"
  shows "2 * length (findMatchingPoints (points v) ms) \<le> length str"
proof -
  from assms have "str = polynomialToSecret (lagrangeInterpolation (findMatchingPoints (points v) ms))"
    by (simp add: unlockVault_def Let_def split: if_splits)
  then show ?thesis
    using polynomialToSecret_length [of "lagrangeInterpolation (findMatchingPoints (points v) ms)"]
    by (simp add: lagrangeInterpolation_length)
qed


lemma sample_secret: "generateSecret [1, 2, 3, 4] = ascii ''01020304''"
  by code_simp

lemma sample_bytes: "hexToBytes (ascii ''01020304'') = [Some 1, Some 2, Some 3, Some 4]"
  by (simp add: hexToBytes.simps ascii_def parseInt_def isSpace_def stripHexPrefix_def
      isRadixDigit_def digitValue_def digitsValue_def Let_def)

lemma sample_polynomial: "secretToPolynomial (ascii ''01020304'') = Some [1, 2, 3, 4]"
  by (simp add: secretToPolynomial_def sample_bytes jsrem_def fieldSize_def)

lemma sample_real_points:
  "map (realPoint [1, 2, 3, 4]) (sampleMinutiae 12)
   = [(205, 190), (16, 117), (78, 232), (140, 117), (202, 107), (13, 35), (75, 236),
      (137, 41), (199, 36), (10, 54), (72, 179), (134, 244)]"
  by code_simp

lemma sample_shuffle:
  "shuffleArray (\<lambda>k. 0) 0
     [(205::int, 190::int), (16, 117), (78, 232), (140, 117), (202, 107), (13, 35), (75, 236),
      (137, 41), (199, 36), (10, 54), (72, 179), (134, 244)]
   = [(16, 117), (78, 232), (140, 117), (202, 107), (13, 35), (75, 236),
      (137, 41), (199, 36), (10, 54), (72, 179), (134, 244), (205, 190)]"
  by code_simp

lemma sampleVault_generated:
  "generateVault (\<lambda>k. 0) [1, 2, 3, 4] (sampleMinutiae 12) = Some sampleVault"
proof -
  have len: "vaultSize - length (sampleMinutiae 12) = 0"
    by (simp add: sampleMinutiae_def vaultSize_def)
  have "generateVaultPoints (\<lambda>k. 0) (sampleMinutiae 12) [1, 2, 3, 4] = points sampleVault"
    unfolding generateVaultPoints_def Let_def len sample_real_points
    by (simp add: sample_shuffle sampleVault_def)
  then show ?thesis
    unfolding generateVault_def Let_def sample_secret sample_polynomial
    by (simp add: sampleVault_def)
qed

lemma sampleVault_matches:
  "findMatchingPoints (points sampleVault) (sampleMinutiae 12)
   = [(205, 190), (16, 117), (78, 232), (140, 117), (202, 107), (13, 35), (75, 236),
      (137, 41), (199, 36), (10, 54), (72, 179), (134, 244)]"
  by code_simp

text \<open>
  With exactly as many matched points as coefficients the interpolation is wrong as well:
  four of the twelve minutiae give \<open>04-f802-fa\<close>.
\<close>

lemma unlockVault_four_points:
  "unlockVault sampleVault (sampleMinutiae 4) = Some (ascii ''04-f802-fa'')"
  by code_simp

subsection \<open>No generated vault gives its secret back\<close>

lemma swapAt_length: "length (swapAt xs i j) = length xs"
  by (simp add: swapAt_def)

lemma swapAt_set: "i < length xs \<Longrightarrow> j < length xs \<Longrightarrow> set (swapAt xs i j) = set xs"
  by (simp add: swapAt_def set_swap)

lemma shuffleLoop_set: "i < length xs \<Longrightarrow> set (shuffleLoop rnd k i xs) = set xs"
proof (induction i arbitrary: k xs)
  case 0
  then show ?case by simp
next
  case (Suc i)
  have "rnd k mod (Suc i + 1) < Suc i + 1"
    by (rule mod_less_divisor) simp
  with Suc.prems have j: "rnd k mod (Suc i + 1) < length xs"
    by linarith
  have "set (shuffleLoop rnd (Suc k) i (swapAt xs (Suc i) (rnd k mod (Suc i + 1))))
        = set (swapAt xs (Suc i) (rnd k mod (Suc i + 1)))"
    using Suc.prems by (intro Suc.IH) (simp add: swapAt_length)
  also have "\<dots> = set xs"
    using Suc.prems j by (rule swapAt_set)
  finally show ?case
    by (simp add: Let_def)
qed

lemma shuffleArray_set: "set (shuffleArray rnd k xs) = set xs"
proof (cases xs)
  case Nil
  then show ?thesis by (simp add: shuffleArray_def)
next
  case (Cons a list)
  then show ?thesis
    unfolding shuffleArray_def by (intro shuffleLoop_set) simp
qed

text \<open>Every minutia a vault was generated from matches a point of the vault.\<close>

lemma generated_points_match:
  "findMatchingPoints (generateVaultPoints rnd minutiae poly) minutiae' = matching
   \<Longrightarrow> set minutiae' \<subseteq> set minutiae \<Longrightarrow> length matching = length minutiae'"
proof (induction minutiae' arbitrary: matching)
  case Nil
  then show ?case by (simp add: findMatchingPoints_def)
next
  case (Cons m ms)
  let ?pts = "generateVaultPoints rnd minutiae poly"
  have "realPoint poly m \<in> set ?pts"
    using Cons.prems(2) by (simp add: generateVaultPoints_def Let_def shuffleArray_set)
  moreover have "fst (realPoint poly m) = encodeMinutia m"
    by (simp add: realPoint_def Let_def)
  ultimately have "find (\<lambda>point. fst point = encodeMinutia m) ?pts \<noteq> None"
    unfolding find_None_iff by blast
  then obtain p where p: "find (\<lambda>point. fst point = encodeMinutia m) ?pts = Some p"
    by auto
  have "findMatchingPoints ?pts (m # ms) = p # findMatchingPoints ?pts ms"
    by (simp add: findMatchingPoints_def p)
  moreover have "length (findMatchingPoints ?pts ms) = length ms"
    using Cons.prems(2) by (intro Cons.IH) simp_all
  ultimately show ?case
    using Cons.prems(1) by auto
qed

lemma natToString_hex_byte: "b < 256 \<Longrightarrow> length (natToString 16 b) \<le> 2"
proof -
  assume b: "b < 256"
  show ?thesis
  proof (cases "b < 16")
    case True
    then show ?thesis by (subst natToString.simps) simp
  next
    case False
    have "b div 16 < 16"
      using b by simp
    then have "natToString 16 (b div 16) = [digitChar (b div 16)]"
      by (subst natToString.simps) simp
    with False show ?thesis
      by (subst natToString.simps) simp
  qed
qed

lemma byteToHex_byte: "b < 256 \<Longrightarrow> length (byteToHex (int b)) = 2"
  using natToString_hex_byte [of b]
  by (simp add: byteToHex_def intToString_def padStart_def)

lemma generateSecret_length:
  "\<forall>b \<in> set bytes. b < 256 \<Longrightarrow> length (generateSecret bytes) = 2 * length bytes"
  by (induction bytes) (simp_all add: generateSecret_def byteToHex_byte)

text \<open>
  The secret of \<open>generateSecret\<close> is eight characters long. A vault generated from five
  minutiae or more matches every one of them, \<open>unlockVault\<close> interpolates over all the
  matches, and the string it returns has two characters or more for each: it is never the
  secret. \<open>processFingerprint\<close> yields twelve minutiae at least.
\<close>

lemma unlockVault_never_secret:
  assumes "generateVault rnd bytes minutiae = Some v"
    and "length bytes = 4" and "\<forall>b \<in> set bytes. b < 256"
    and "4 < length minutiae"
  shows "unlockVault v minutiae \<noteq> Some (secret v)"
proof
  assume u: "unlockVault v minutiae = Some (secret v)"
  from assms(1) obtain poly where v: "points v = generateVaultPoints rnd minutiae poly"
    and s: "secret v = generateSecret bytes"
    by (auto simp: generateVault_def Let_def split: option.splits)
  have "length (findMatchingPoints (points v) minutiae) = length minutiae"
    unfolding v by (rule generated_points_match [OF refl]) simp
  with unlockVault_length [OF u] have "2 * length minutiae \<le> length (secret v)"
    by simp
  moreover have "length (secret v) = 8"
    using generateSecret_length [OF assms(3)] assms(2) by (simp add: s)
  ultimately show False
    using assms(4) by simp
qed

text \<open>
  C2. \<open>unlockVault\<close> does not return the secret of the vault it is given with the minutiae
  the vault was generated from: for the twelve sample minutiae and the secret
  \<open>01020304\<close>, the vault is \<open>sampleVault\<close>, all twelve minutiae match, and the string
  returned has at least 24 characters, so it is not the secret.
\<close>

theorem unlockVault_loses_secret:
  "processFingerprint (Extracted (sampleMinutiae 12)) = Inr (sampleMinutiae 12)
   \<and> generateVault (\<lambda>k. 0) [1, 2, 3, 4] (sampleMinutiae 12) = Some sampleVault
   \<and> secret sampleVault = ascii ''01020304''
   \<and> (\<exists>str. unlockVault sampleVault (sampleMinutiae 12) = Some str
            \<and> 24 \<le> length str \<and> str \<noteq> secret sampleVault)"
proof -
  have n12: "normalizeMinutiae (sampleMinutiae 12) = sampleMinutiae 12"
    by (rule normalizeMinutiae_sample) simp
  have l12: "length (sampleMinutiae 12) = 12"
    by (simp add: sampleMinutiae_def)
  have gate: "processFingerprint (Extracted (sampleMinutiae 12)) = Inr (sampleMinutiae 12)"
    by (simp add: processFingerprint_def n12 l12 Let_def MIN_MINUTIAE_def)
  have len: "length (findMatchingPoints (points sampleVault) (sampleMinutiae 12)) = 12"
    by (simp add: sampleVault_matches)
  have poly: "length (polynomial sampleVault) = 4"
    by (simp add: sampleVault_def)
  obtain str where str: "unlockVault sampleVault (sampleMinutiae 12) = Some str"
    using len poly by (simp add: unlockVault_def Let_def)
  from unlockVault_length [OF str] len have long: "24 \<le> length str"
    by simp
  have sec: "length (secret sampleVault) = 8"
    by (simp add: sampleVault_def ascii_def)
  from long sec have "str \<noteq> secret sampleVault"
    by auto
  with gate sampleVault_generated str long show ?thesis
    by (simp add: sampleVault_def)
qed




section \<open>Distribution of the payload\<close>

lemma splitRuns_concat: "concat (splitRuns inSpace cur str) = cur @ str"
  by (induction str arbitrary: inSpace cur) simp_all

lemma splitOnSpace_concat: "concat (splitOnSpace txt) = txt"
  by (simp add: splitOnSpace_def splitRuns_concat)

lemma concat_update_append:
  assumes "i < length xs"
  shows "concat (xs[i := xs ! i @ c])
         = concat (take i xs) @ xs ! i @ c @ concat (drop (Suc i) xs)"
  using assms by (simp add: upd_conv_take_nth_drop)

lemma concat_split_at:
  assumes "i < length xs"
  shows "concat xs = concat (take i xs) @ xs ! i @ concat (drop (Suc i) xs)"
proof -
  have "xs = take i xs @ xs ! i # drop (Suc i) xs"
    using assms by (rule id_take_nth_drop)
  then have "concat xs = concat (take i xs @ xs ! i # drop (Suc i) xs)"
    by simp
  then show ?thesis by simp
qed

lemma visible_append [simp]:
  "getUserVisibleText (a @ b) = getUserVisibleText a @ getUserVisibleText b"
  by (simp add: getUserVisibleText_def)

lemma visible_markersOnly: "markersOnly str \<Longrightarrow> getUserVisibleText str = []"
  by (auto simp: markersOnly_def getUserVisibleText_def isMarker_def list_all_iff
      ZERO_BIT_def ONE_BIT_def SEPARATOR_def filter_empty_conv)

lemma visible_markerFree: "markerFree str \<Longrightarrow> getUserVisibleText str = str"
  by (auto simp: markerFree_def getUserVisibleText_def isMarker_def list_all_iff
      ZERO_BIT_def ONE_BIT_def SEPARATOR_def filter_id_conv)

lemma markersOnly_take: "markersOnly str \<Longrightarrow> markersOnly (take n str)"
  by (auto simp: markersOnly_def list_all_iff dest: in_set_takeD)

lemma markersOnly_drop: "markersOnly str \<Longrightarrow> markersOnly (drop n str)"
  by (auto simp: markersOnly_def list_all_iff dest: in_set_dropD)

lemma visible_update:
  assumes "markersOnly c"
  shows "getUserVisibleText (concat (xs[i := xs ! i @ c])) = getUserVisibleText (concat xs)"
proof (cases "i < length xs")
  case True
  have "getUserVisibleText (concat (xs[i := xs ! i @ c]))
        = getUserVisibleText (concat (take i xs)) @ getUserVisibleText (xs ! i)
          @ getUserVisibleText (concat (drop (Suc i) xs))"
    by (simp add: concat_update_append [OF True] visible_markersOnly [OF assms])
  also have "\<dots> = getUserVisibleText (concat xs)"
    using concat_split_at [OF True] by (metis visible_append)
  finally show ?thesis .
next
  case False
  then have "xs[i := xs ! i @ c] = xs" by (simp add: not_less list_update_beyond)
  then show ?thesis by simp
qed

lemma appendChunks_visible:
  assumes "markersOnly payload"
  shows "getUserVisibleText (concat (fst (appendChunks payload chunkSize slots (tokens, idx))))
         = getUserVisibleText (concat tokens)"
proof (induction slots arbitrary: tokens idx)
  case Nil
  then show ?case by simp
next
  case (Cons slot slots)
  have chunk: "markersOnly (take chunkSize (drop idx payload))"
    using assms by (simp add: markersOnly_take markersOnly_drop)
  show ?case
    using Cons.IH visible_update [OF chunk] by (simp add: Let_def)
qed

lemma distribute_visible:
  assumes "markersOnly payload"
  shows "getUserVisibleText (distributeInvisiblePayload rnd txt payload) = getUserVisibleText txt"
proof -
  let ?tokens = "splitOnSpace txt"
  have tok: "getUserVisibleText (concat ?tokens) = getUserVisibleText txt"
    by (simp add: splitOnSpace_concat)
  have pay: "getUserVisibleText payload = []"
    using assms by (rule visible_markersOnly)
  have loop: "getUserVisibleText (concat (fst (appendChunks payload cs slots (?tokens, 0))))
              = getUserVisibleText txt" for cs slots
    using appendChunks_visible [OF assms] tok by simp
  have rest: "markersOnly (drop n payload)" for n
    using assms by (rule markersOnly_drop)
  show ?thesis
    unfolding distributeInvisiblePayload_def Let_def
    by (simp add: pay tok loop visible_update [OF rest] split_beta)
qed

lemma pickRandomWordSlots_single: "pickRandomWordSlots rnd [w] (Suc n) = [w]"
  by (simp add: pickRandomWordSlots_def)

lemma distribute_marked_text:
  "distributeInvisiblePayload rnd [97, 8203] [8204] = [97, 8203, 8204]"
proof -
  have "splitOnSpace [97, 8203] = [[97, 8203]]"
    by (simp add: splitOnSpace_def isSpace_def)
  moreover have "isWordToken [97, 8203]"
    by (simp add: isWordToken_def trim_def isSpace_def)
  ultimately show ?thesis
    by (simp add: distributeInvisiblePayload_def pickRandomWordSlots_single slotsToUse_def
        floor03_def ceilDiv_def Let_def)
qed

lemma distribute_visible_payload:
  "distributeInvisiblePayload rnd [97] [120] = [97, 120]"
proof -
  have "splitOnSpace [97] = [[97]]"
    by (simp add: splitOnSpace_def isSpace_def)
  moreover have "isWordToken [97]"
    by (simp add: isWordToken_def trim_def isSpace_def)
  ultimately show ?thesis
    by (simp add: distributeInvisiblePayload_def pickRandomWordSlots_single slotsToUse_def
        floor03_def ceilDiv_def Let_def)
qed

text \<open>
  C5 as stated fails in two ways: a text that holds a marker character loses it when the
  markers are stripped, and a payload with a visible character leaves it in the text.
  Both texts are non-empty and are one non-space token.
\<close>

theorem distribute_strip_counterexample:
  "getUserVisibleText (distributeInvisiblePayload (\<lambda>a i. i) [97, 8203] [8204]) \<noteq> [97, 8203]
   \<and> getUserVisibleText (distributeInvisiblePayload (\<lambda>a i. i) [97] [120]) \<noteq> [97]"
  by (simp add: distribute_marked_text distribute_visible_payload getUserVisibleText_def
      ZERO_BIT_def ONE_BIT_def SEPARATOR_def)

text \<open>
  C5, amended. For every text that holds none of the three marker characters and every
  payload made of marker characters only, stripping the markers from the distributed
  text gives the text back, whatever slots the random draws select.
\<close>

theorem distribute_strip_roundtrip:
  assumes "markerFree txt" and "markersOnly payload"
  shows "getUserVisibleText (distributeInvisiblePayload rnd txt payload) = txt"
  using distribute_visible [OF assms(2)] visible_markerFree [OF assms(1)] by simp

theorem distribute_strip_roundtrip_witness:
  "markerFree (ascii ''Hi there'') \<and> markersOnly [8203, 8204, 8205, 8204]
   \<and> getUserVisibleText
        (distributeInvisiblePayload (\<lambda>a i. i) (ascii ''Hi there'') [8203, 8204, 8205, 8204])
      = ascii ''Hi there''"
proof -
  have a: "markerFree (ascii ''Hi there'')"
    by (simp add: markerFree_def isMarker_def ascii_def)
  have b: "markersOnly [8203, 8204, 8205, 8204]"
    by (simp add: markersOnly_def isMarker_def)
  from a b distribute_strip_roundtrip [OF a b, of "\<lambda>a i. i"] show ?thesis
    by simp
qed

section \<open>The depth bound of the parser\<close>

lemma skipSpace_length: "length (skipSpace inp) \<le> length inp"
  by (simp add: skipSpace_def length_dropWhile_le)

lemma skipSpace_Cons: "skipSpace inp = ch # rest \<Longrightarrow> length rest < length inp"
  using skipSpace_length [of inp] by simp

lemma parseStringBody_shorter: "parseStringBody inp = Some (str, r) \<Longrightarrow> length r < length inp"
proof (induction inp arbitrary: str r rule: length_induct)
  case (1 inp)
  from 1(2) obtain ch rest where inp: "inp = ch # rest"
    by (cases inp) auto
  have IH: "length r' < length s"
    if "parseStringBody s = Some (str', r')" "length s < length inp" for s str' r'
    using 1(1) that by blast
  show ?case
  proof (cases "ch = 34")
    case True
    with 1(2) inp show ?thesis by simp
  next
    case quote: False
    show ?thesis
    proof (cases "ch = 92")
      case False
      with quote 1(2) inp obtain str' where "parseStringBody rest = Some (str', r)"
        by (auto split: if_splits option.splits)
      from IH [OF this] inp show ?thesis
        by simp
    next
      case True
      with 1(2) inp obtain e rest' where rest: "rest = e # rest'"
        by (cases rest) auto
      show ?thesis
      proof (cases "e = 117")
        case False
        with True rest 1(2) inp obtain str' where "parseStringBody rest' = Some (str', r)"
          by (auto split: option.splits)
        from IH [OF this] inp rest show ?thesis
          by simp
      next
        case u: True
        with True rest 1(2) inp obtain h1 h2 h3 h4 rest'' str'
          where r': "rest' = h1 # h2 # h3 # h4 # rest''"
            and p: "parseStringBody rest'' = Some (str', r)"
          by (auto split: list.splits option.splits)
        from IH [OF p] inp rest r' show ?thesis
          by simp
      qed
    qed
  qed
qed

lemma parseFraction_length: "parseFraction inp = Some (fr, r) \<Longrightarrow> length r \<le> length inp"
  by (auto simp: parseFraction_def Let_def length_dropWhile_le le_SucI
      split: list.splits if_splits)

lemma parseExponent_length: "parseExponent inp = Some (ex, r) \<Longrightarrow> length r \<le> length inp"
proof (cases inp)
  case Nil
  assume "parseExponent inp = Some (ex, r)"
  with Nil show ?thesis by (simp add: parseExponent_def)
next
  case (Cons ch rest)
  assume p: "parseExponent inp = Some (ex, r)"
  show ?thesis
  proof (cases "ch = 101 \<or> ch = 69")
    case False
    with p Cons show ?thesis by (auto simp: parseExponent_def)
  next
    case True
    define rest' where "rest' = (case rest of sg # r \<Rightarrow> if sg = 45 \<or> sg = 43 then r else rest
                                 | [] \<Rightarrow> rest)"
    have "length rest' \<le> length rest"
      by (auto simp: rest'_def split: list.splits)
    moreover have "r = dropWhile isDigit rest'"
      using p Cons True by (auto simp: parseExponent_def Let_def rest'_def split: if_splits)
    moreover have "length (dropWhile isDigit rest') \<le> length rest'"
      by (rule length_dropWhile_le)
    ultimately show ?thesis
      using Cons by simp
  qed
qed

lemma parseNumber_shorter: "parseNumber inp = Some (num, r) \<Longrightarrow> length r < length inp"
proof -
  assume p: "parseNumber inp = Some (num, r)"
  define body where "body = (if (case inp of ch # _ \<Rightarrow> ch = 45 | [] \<Rightarrow> False) then tl inp else inp)"
  have body: "length body \<le> length inp"
    by (simp add: body_def)
  from p have ds: "takeWhile isDigit body \<noteq> []"
    by (auto simp: parseNumber_def Let_def body_def split: if_splits)
  from p obtain fr rest' ex where f: "parseFraction (dropWhile isDigit body) = Some (fr, rest')"
    and e: "parseExponent rest' = Some (ex, r)"
    by (auto simp: parseNumber_def Let_def body_def split: if_splits option.splits)
  have "length (takeWhile isDigit body) + length (dropWhile isDigit body) = length body"
    by (metis length_append takeWhile_dropWhile_id)
  with ds have "length (dropWhile isDigit body) < length body"
    by (cases "takeWhile isDigit body") simp_all
  with parseFraction_length [OF f] parseExponent_length [OF e] body show ?thesis
    by simp
qed

lemma parseValue_scalar:
  assumes "skipSpace inp = ch # rest" and "ch \<noteq> 123" and "ch \<noteq> 91"
  shows "parseValue (Suc k) inp = parseValue (Suc m) inp"
  using assms by simp

lemma parseValue_scalar_shorter:
  assumes sk: "skipSpace inp = ch # rest" and "ch \<noteq> 123" and "ch \<noteq> 91"
    and p: "parseValue (Suc m) inp = Some (v, r)"
  shows "length r < length inp"
proof -
  note lr = skipSpace_Cons [OF sk]
  show ?thesis
  proof (cases "ch = 34")
    case True
    with p sk assms(2,3) obtain str where "parseStringBody rest = Some (str, r)"
      by (auto split: option.splits)
    from parseStringBody_shorter [OF this] lr show ?thesis
      by simp
  next
    case False
    let ?s = "ch # rest"
    from p sk assms(2,3) False
    consider "r = drop 4 ?s" | "r = drop 5 ?s" | num where "parseNumber ?s = Some (num, r)"
      by (auto split: option.splits if_splits)
    then show ?thesis
    proof cases
      case 1
      with lr show ?thesis by simp
    next
      case 2
      with lr show ?thesis by simp
    next
      case 3
      from parseNumber_shorter [OF this] lr show ?thesis
        by simp
    qed
  qed
qed

lemma parseValue_fuel_step:
  assumes E: "\<And>inp vs r k. parseElements m inp = Some (vs, r) \<Longrightarrow>
                length r < length inp
                \<and> (length inp - length r \<le> k \<longrightarrow> parseElements k inp = Some (vs, r))"
    and M: "\<And>inp ms r k. parseMembers m inp = Some (ms, r) \<Longrightarrow>
                length r < length inp
                \<and> (length inp - length r \<le> k \<longrightarrow> parseMembers k inp = Some (ms, r))"
    and p: "parseValue (Suc m) inp = Some (v, r)"
  shows "length r < length inp
         \<and> (length inp - length r \<le> k \<longrightarrow> parseValue k inp = Some (v, r))"
proof -
  from p obtain ch rest where sk: "skipSpace inp = ch # rest"
    by (auto split: list.splits)
  note lr = skipSpace_Cons [OF sk]
  have both: "length r < length inp
              \<and> (length inp - length r \<le> Suc k' \<longrightarrow> parseValue (Suc k') inp = Some (v, r))"
    for k'
  proof (cases "ch = 123 \<or> ch = 91")
    case False
    then have "parseValue (Suc k') inp = parseValue (Suc m) inp"
      using sk by (intro parseValue_scalar) auto
    moreover have "length r < length inp"
      using sk False p by (intro parseValue_scalar_shorter [of inp ch rest m v r]) auto
    ultimately show ?thesis
      using p by simp
  next
    case True
    with p sk obtain ch' rest' where sk': "skipSpace rest = ch' # rest'"
      by (auto split: list.splits)
    note lr' = skipSpace_Cons [OF sk']
    show ?thesis
    proof (cases "ch = 123")
      case obj: True
      show ?thesis
      proof (cases "ch' = 125")
        case True
        with p sk sk' obj lr lr' show ?thesis
          by auto
      next
        case False
        with p sk sk' obj obtain members where pm: "parseMembers m rest = Some (members, r)"
          and v: "v = JObj members"
          by (auto split: option.splits)
        from M [OF pm, of k'] lr have "length r < length inp"
          and "length inp - length r \<le> Suc k' \<longrightarrow> parseMembers k' rest = Some (members, r)"
          by auto
        with sk sk' obj False v show ?thesis
          by simp
      qed
    next
      case notobj: False
      with True have arr: "ch = 91" by simp
      show ?thesis
      proof (cases "ch' = 93")
        case True
        with p sk sk' arr lr lr' show ?thesis
          by auto
      next
        case False
        with p sk sk' arr obtain elements where pe: "parseElements m rest = Some (elements, r)"
          and v: "v = JArr elements"
          by (auto split: option.splits)
        from E [OF pe, of k'] lr have "length r < length inp"
          and "length inp - length r \<le> Suc k' \<longrightarrow> parseElements k' rest = Some (elements, r)"
          by auto
        with sk sk' arr False v show ?thesis
          by simp
      qed
    qed
  qed
  show ?thesis
  proof (cases k)
    case 0
    with both [of 0] show ?thesis by simp
  next
    case (Suc k')
    with both [of k'] show ?thesis by simp
  qed
qed

lemma parseElements_fuel_step:
  assumes V: "\<And>inp v r k. parseValue m inp = Some (v, r) \<Longrightarrow>
                length r < length inp
                \<and> (length inp - length r \<le> k \<longrightarrow> parseValue k inp = Some (v, r))"
    and E: "\<And>inp vs r k. parseElements m inp = Some (vs, r) \<Longrightarrow>
                length r < length inp
                \<and> (length inp - length r \<le> k \<longrightarrow> parseElements k inp = Some (vs, r))"
    and p: "parseElements (Suc m) inp = Some (vs, r)"
  shows "length r < length inp
         \<and> (length inp - length r \<le> k \<longrightarrow> parseElements k inp = Some (vs, r))"
proof -
  from p obtain v r1 where pv: "parseValue m inp = Some (v, r1)"
    by (auto split: option.splits)
  from p pv obtain ch rest where sk: "skipSpace r1 = ch # rest"
    by (auto split: list.splits)
  note lr = skipSpace_Cons [OF sk]
  from V [OF pv] have l1: "length r1 < length inp"
    and f1: "length inp - length r1 \<le> k' \<Longrightarrow> parseValue k' inp = Some (v, r1)" for k'
    by auto
  have both: "length r < length inp
              \<and> (length inp - length r \<le> Suc k' \<longrightarrow> parseElements (Suc k') inp = Some (vs, r))"
    for k'
  proof (cases "ch = 93")
    case True
    with p pv sk have r: "r = rest" and vs: "vs = [v]"
      by auto
    have "length inp - length r \<le> Suc k' \<longrightarrow> parseValue k' inp = Some (v, r1)"
      using f1 [of k'] lr l1 r by auto
    with True sk r vs lr l1 show ?thesis
      by auto
  next
    case False
    with p pv sk obtain vs' where comma: "ch = 44"
      and pe: "parseElements m rest = Some (vs', r)" and vs: "vs = v # vs'"
      by (auto split: option.splits if_splits)
    from E [OF pe, of k'] have l2: "length r < length rest"
      and f2: "length rest - length r \<le> k' \<longrightarrow> parseElements k' rest = Some (vs', r)"
      by auto
    have "length inp - length r \<le> Suc k' \<longrightarrow> parseValue k' inp = Some (v, r1)"
      using f1 [of k'] lr l1 l2 by auto
    moreover have "length inp - length r \<le> Suc k' \<longrightarrow> parseElements k' rest = Some (vs', r)"
      using f2 lr l1 l2 by auto
    ultimately show ?thesis
      using comma sk vs lr l1 l2 by auto
  qed
  show ?thesis
  proof (cases k)
    case 0
    with both [of 0] show ?thesis by simp
  next
    case (Suc k')
    with both [of k'] show ?thesis by simp
  qed
qed

lemma parseMembers_fuel_step:
  assumes V: "\<And>inp v r k. parseValue m inp = Some (v, r) \<Longrightarrow>
                length r < length inp
                \<and> (length inp - length r \<le> k \<longrightarrow> parseValue k inp = Some (v, r))"
    and M: "\<And>inp ms r k. parseMembers m inp = Some (ms, r) \<Longrightarrow>
                length r < length inp
                \<and> (length inp - length r \<le> k \<longrightarrow> parseMembers k inp = Some (ms, r))"
    and p: "parseMembers (Suc m) inp = Some (ms, r)"
  shows "length r < length inp
         \<and> (length inp - length r \<le> k \<longrightarrow> parseMembers k inp = Some (ms, r))"
proof -
  from p obtain rest where sk: "skipSpace inp = 34 # rest"
    by (auto split: list.splits if_splits)
  from p sk obtain key r0 where ps: "parseStringBody rest = Some (key, r0)"
    by (auto split: option.splits)
  from p sk ps obtain r' where sk0: "skipSpace r0 = 58 # r'"
    by (auto split: list.splits if_splits)
  from p sk ps sk0 obtain v r2 where pv: "parseValue m r' = Some (v, r2)"
    by (auto split: option.splits)
  from p sk ps sk0 pv obtain ch' rest' where sk2: "skipSpace r2 = ch' # rest'"
    by (auto split: list.splits)
  have l0: "length r' < length inp"
    using skipSpace_Cons [OF sk] parseStringBody_shorter [OF ps] skipSpace_Cons [OF sk0]
    by simp
  note l3 = skipSpace_Cons [OF sk2]
  from V [OF pv] have l1: "length r2 < length r'"
    and f1: "length r' - length r2 \<le> k' \<Longrightarrow> parseValue k' r' = Some (v, r2)" for k'
    by auto
  have both: "length r < length inp
              \<and> (length inp - length r \<le> Suc k' \<longrightarrow> parseMembers (Suc k') inp = Some (ms, r))"
    for k'
  proof (cases "ch' = 125")
    case True
    with p sk ps sk0 pv sk2 have r: "r = rest'" and ms: "ms = [(key, v)]"
      by auto
    have "length inp - length r \<le> Suc k' \<longrightarrow> parseValue k' r' = Some (v, r2)"
      using f1 [of k'] l0 l1 l3 r by auto
    with True sk ps sk0 sk2 r ms l0 l1 l3 show ?thesis
      by auto
  next
    case False
    with p sk ps sk0 pv sk2 obtain ms' where comma: "ch' = 44"
      and pm: "parseMembers m rest' = Some (ms', r)" and ms: "ms = (key, v) # ms'"
      by (auto split: option.splits if_splits)
    from M [OF pm, of k'] have l2: "length r < length rest'"
      and f2: "length rest' - length r \<le> k' \<longrightarrow> parseMembers k' rest' = Some (ms', r)"
      by auto
    have "length inp - length r \<le> Suc k' \<longrightarrow> parseValue k' r' = Some (v, r2)"
      using f1 [of k'] l0 l1 l2 l3 by auto
    moreover have "length inp - length r \<le> Suc k' \<longrightarrow> parseMembers k' rest' = Some (ms', r)"
      using f2 l0 l1 l2 l3 by auto
    ultimately show ?thesis
      using comma sk ps sk0 sk2 ms l0 l1 l2 l3 by auto
  qed
  show ?thesis
  proof (cases k)
    case 0
    with both [of 0] show ?thesis by simp
  next
    case (Suc k')
    with both [of k'] show ?thesis by simp
  qed
qed

text \<open>
  A parse that succeeds with some bound on the depth of the calls consumes input, and
  succeeds with the same result for every bound that is at least the number of
  characters it consumed.
\<close>

lemma parse_fuel:
  "(\<forall>inp v r k. parseValue m inp = Some (v, r) \<longrightarrow>
       length r < length inp
       \<and> (length inp - length r \<le> k \<longrightarrow> parseValue k inp = Some (v, r)))
   \<and> (\<forall>inp vs r k. parseElements m inp = Some (vs, r) \<longrightarrow>
       length r < length inp
       \<and> (length inp - length r \<le> k \<longrightarrow> parseElements k inp = Some (vs, r)))
   \<and> (\<forall>inp ms r k. parseMembers m inp = Some (ms, r) \<longrightarrow>
       length r < length inp
       \<and> (length inp - length r \<le> k \<longrightarrow> parseMembers k inp = Some (ms, r)))"
proof (induction m)
  case 0
  show ?case by simp
next
  case (Suc m)
  then have V: "\<And>inp v r k. parseValue m inp = Some (v, r) \<Longrightarrow>
                  length r < length inp
                  \<and> (length inp - length r \<le> k \<longrightarrow> parseValue k inp = Some (v, r))"
    and E: "\<And>inp vs r k. parseElements m inp = Some (vs, r) \<Longrightarrow>
                  length r < length inp
                  \<and> (length inp - length r \<le> k \<longrightarrow> parseElements k inp = Some (vs, r))"
    and M: "\<And>inp ms r k. parseMembers m inp = Some (ms, r) \<Longrightarrow>
                  length r < length inp
                  \<and> (length inp - length r \<le> k \<longrightarrow> parseMembers k inp = Some (ms, r))"
    by blast+
  show ?case
    using parseValue_fuel_step [OF E M] parseElements_fuel_step [OF V E]
      parseMembers_fuel_step [OF V M]
    by blast
qed

text \<open>
  The bound \<open>JSON_parse\<close> starts with is never the reason of a failure: a text that parses
  with any bound on the depth parses with the one of \<open>JSON_parse\<close>.
\<close>

lemma JSON_parse_fuel:
  assumes "parseValue m inp = Some (v, r)" and "skipSpace r = []"
  shows "JSON_parse inp = Some v"
proof -
  from parse_fuel [of m] assms(1)
  have "length inp - length r \<le> Suc (length inp)
        \<longrightarrow> parseValue (Suc (length inp)) inp = Some (v, r)"
    by blast
  then have "parseValue (Suc (length inp)) inp = Some (v, r)"
    by simp
  with assms(2) show ?thesis
    by (simp add: JSON_parse_def)
qed

section \<open>Digits\<close>

lemma digitValue_digitChar: "d < 10 \<Longrightarrow> digitValue (digitChar d) = Some d"
  by (simp add: digitValue_def digitChar_def)

lemma digitsValue_snoc:
  "digitsValue radix (ds @ [ch])
   = digitsValue radix ds * radix + (case digitValue ch of None \<Rightarrow> 0 | Some d \<Rightarrow> d)"
  by (simp add: digitsValue_def)

lemma digitsValue_zeros: "digitsValue radix (replicate k 48 @ ds) = digitsValue radix ds"
proof -
  have "foldl (\<lambda>acc ch. acc * radix + (case digitValue ch of None \<Rightarrow> 0 | Some d \<Rightarrow> d)) 0
          (replicate k 48) = 0"
    by (induction k) (simp_all add: digitValue_def)
  then show ?thesis
    by (simp add: digitsValue_def)
qed

lemma natToString_nonempty: "natToString radix n \<noteq> []"
  by (subst natToString.simps) simp

lemma natToString_value:
  "2 \<le> radix \<Longrightarrow> radix \<le> 10 \<Longrightarrow> digitsValue radix (natToString radix n) = n"
proof (induction radix n rule: natToString.induct)
  case (1 radix n)
  show ?case
  proof (cases "n < radix")
    case True
    with 1(2,3) have "digitsValue radix [digitChar n] = n"
      by (simp add: digitsValue_def digitValue_digitChar)
    with True show ?thesis
      by (subst natToString.simps) simp
  next
    case False
    with 1 have ih: "digitsValue radix (natToString radix (n div radix)) = n div radix"
      by simp
    have "n mod radix < 10"
      using 1(2,3) by (meson less_le_trans mod_less_divisor less_le_trans zero_less_numeral
          order_less_le_trans pos2)
    then have dv: "digitValue (digitChar (n mod radix)) = Some (n mod radix)"
      by (rule digitValue_digitChar)
    have "natToString radix n = natToString radix (n div radix) @ [digitChar (n mod radix)]"
      using False 1(2) by (subst natToString.simps) simp
    then show ?thesis
      by (simp add: digitsValue_snoc ih dv)
  qed
qed

lemma natToString_digits:
  "2 \<le> radix \<Longrightarrow> radix \<le> 10 \<Longrightarrow>
   \<forall>ch \<in> set (natToString radix n). 48 \<le> ch \<and> ch < 48 + radix"
proof (induction radix n rule: natToString.induct)
  case (1 radix n)
  show ?case
  proof (cases "n < radix")
    case True
    have "natToString radix n = [digitChar n]"
      using True by (subst natToString.simps) simp
    with True 1(3) show ?thesis
      by (simp add: digitChar_def)
  next
    case False
    with 1 have ih: "\<forall>ch \<in> set (natToString radix (n div radix)). 48 \<le> ch \<and> ch < 48 + radix"
      by simp
    have m: "n mod radix < radix"
      using 1(2) by simp
    have "natToString radix n = natToString radix (n div radix) @ [digitChar (n mod radix)]"
      using False 1(2) by (subst natToString.simps) simp
    with ih m 1(3) show ?thesis
      by (auto simp: digitChar_def)
  qed
qed

lemma natToString_binary_length:
  "n < 2 ^ k \<Longrightarrow> 0 < k \<Longrightarrow> length (natToString 2 n) \<le> k"
proof (induction k arbitrary: n)
  case 0
  then show ?case by simp
next
  case (Suc k)
  show ?case
  proof (cases "n < 2")
    case True
    then have "natToString 2 n = [digitChar n]"
      by (subst natToString.simps) simp
    then show ?thesis by simp
  next
    case False
    then have k: "0 < k"
      using Suc.prems(1) by (cases k) simp_all
    have "n div 2 < 2 ^ k"
      using Suc.prems(1) by simp
    from Suc.IH [OF this k] have "length (natToString 2 (n div 2)) \<le> k" .
    moreover have "natToString 2 n = natToString 2 (n div 2) @ [digitChar (n mod 2)]"
      using False by (subst natToString.simps) simp
    ultimately show ?thesis by simp
  qed
qed

section \<open>Eight bits for every character\<close>

lemma bits_of_char:
  assumes "ch < 256"
  shows "length (padStart 8 48 (natToString 2 ch)) = 8"
    and "set (padStart 8 48 (natToString 2 ch)) \<subseteq> {48, 49}"
    and "digitsValue 2 (padStart 8 48 (natToString 2 ch)) = ch"
proof -
  have len: "length (natToString 2 ch) \<le> 8"
    using assms by (intro natToString_binary_length) simp_all
  then show "length (padStart 8 48 (natToString 2 ch)) = 8"
    by (simp add: padStart_def)
  have "\<forall>c \<in> set (natToString 2 ch). 48 \<le> c \<and> c < 48 + 2"
    by (rule natToString_digits) simp_all
  then have "set (natToString 2 ch) \<subseteq> {48, 49}"
    by auto
  then show "set (padStart 8 48 (natToString 2 ch)) \<subseteq> {48, 49}"
    by (auto simp: padStart_def)
  show "digitsValue 2 (padStart 8 48 (natToString 2 ch)) = ch"
    by (simp add: padStart_def digitsValue_zeros natToString_value)
qed

lemma parseInt_binary:
  assumes "bs \<noteq> []" and "set bs \<subseteq> {48, 49}"
  shows "parseInt bs 2 = Some (int (digitsValue 2 bs))"
proof -
  obtain b rest where bs: "bs = b # rest"
    using assms(1) by (cases bs) auto
  with assms(2) have b: "b = 48 \<or> b = 49" by auto
  then have nospace: "\<not> isSpace b"
    by (auto simp: isSpace_def)
  have digit: "isRadixDigit 2 c" if "c \<in> set bs" for c
    using that assms(2) by (auto simp: isRadixDigit_def digitValue_def)
  then have tw: "takeWhile (isRadixDigit 2) bs = bs"
    by (simp add: takeWhile_eq_all_conv)
  have strip: "stripHexPrefix 2 bs = bs"
    by (simp add: stripHexPrefix_def split: list.splits)
  have sign: "(case bs of c # rest \<Rightarrow> if c = 45 \<or> c = 43 then rest else bs | [] \<Rightarrow> bs) = bs"
    using b bs by auto
  have neg: "(case bs of c # _ \<Rightarrow> c = 45 | [] \<Rightarrow> False) = False"
    using b bs by auto
  have dw: "dropWhile isSpace bs = bs"
    using nospace bs by simp
  show ?thesis
    unfolding parseInt_def Let_def dw sign neg strip tw
    using assms(1) by simp
qed

lemma binaryToChars_char:
  assumes "ch < 256"
  shows "binaryToChars (padStart 8 48 (natToString 2 ch) @ rest) = ch # binaryToChars rest"
proof -
  let ?bits = "padStart 8 48 (natToString 2 ch)"
  note b = bits_of_char [OF assms]
  have ne: "?bits \<noteq> []"
    using b(1) by auto
  have "parseInt ?bits 2 = Some (int ch)"
    using parseInt_binary [OF ne b(2)] b(3) by simp
  moreover have "fromCharCode (Some (int ch)) = ch"
    using assms by (simp add: fromCharCode_def)
  ultimately show ?thesis
    using b(1) ne by (subst binaryToChars.simps) simp
qed

lemma binaryToChars_Nil: "binaryToChars [] = []"
  by (subst binaryToChars.simps) simp

lemma binaryToChars_bits:
  "latin1 str \<Longrightarrow>
   binaryToChars (concat (map (\<lambda>charCode. padStart 8 48 (natToString 2 charCode)) str)) = str"
  by (induction str) (simp_all add: latin1_def binaryToChars_Nil binaryToChars_char)

lemma bits_binary:
  "latin1 str \<Longrightarrow>
   set (concat (map (\<lambda>charCode. padStart 8 48 (natToString 2 charCode)) str)) \<subseteq> {48, 49}"
  using bits_of_char(2) by (induction str) (auto simp: latin1_def)

section \<open>Bits as invisible characters\<close>

lemma collectBits_append [simp]: "collectBits (a @ b) = collectBits a @ collectBits b"
  by (simp add: collectBits_def)

lemma collectBits_Nil [simp]: "collectBits [] = []"
  by (simp add: collectBits_def)

lemma collectBits_concat: "collectBits (concat xss) = concat (map collectBits xss)"
  by (induction xss) simp_all

lemma collectBits_binaryToInvisibleText:
  assumes "set binary \<subseteq> {48, 49}"
  shows "collectBits (binaryToInvisibleText binary) = binary"
proof -
  define piece where "piece = (\<lambda>i. (if binary ! i = 49 then [ONE_BIT] else [ZERO_BIT])
                @ (if (i + 1) mod 8 = 0 \<and> i \<noteq> length binary - 1 then [SEPARATOR] else []))"
  have one: "collectBits (piece i) = [binary ! i]" if "i < length binary" for i
  proof -
    from that assms have "binary ! i = 48 \<or> binary ! i = 49"
      using nth_mem by fastforce
    then show ?thesis
      unfolding piece_def
      by (auto simp: collectBits_def ZERO_BIT_def ONE_BIT_def SEPARATOR_def)
  qed
  have pieces: "map (\<lambda>i. collectBits (piece i)) [0 ..< length binary]
                = map (\<lambda>i. [binary ! i]) [0 ..< length binary]"
  proof (rule map_cong [OF refl])
    fix i
    assume "i \<in> set [0 ..< length binary]"
    then have "i < length binary" by simp
    then show "collectBits (piece i) = [binary ! i]" by (rule one)
  qed
  have "binaryToInvisibleText binary = concat (map piece [0 ..< length binary])"
    by (simp add: binaryToInvisibleText_def piece_def)
  then have "collectBits (binaryToInvisibleText binary)
        = concat (map (\<lambda>i. collectBits (piece i)) [0 ..< length binary])"
    by (simp only: collectBits_concat map_map comp_def)
  also have "\<dots> = concat (map (\<lambda>i. [binary ! i]) [0 ..< length binary])"
    by (simp only: pieces)
  also have "\<dots> = map (nth binary) [0 ..< length binary]"
    by (rule concat_map_singleton)
  also have "\<dots> = binary"
    by (rule map_nth)
  finally show ?thesis .
qed

lemma collectBits_markerFree: "markerFree str \<Longrightarrow> collectBits str = []"
  by (induction str) (auto simp: markerFree_def collectBits_def isMarker_def ZERO_BIT_def ONE_BIT_def)

section \<open>JSON: parsing what stringify wrote\<close>

lemma hexDigit_digitChar: "d < 16 \<Longrightarrow> hexDigit (digitChar d) = Some d"
  by (auto simp: hexDigit_def digitValue_def digitChar_def)

lemma not_surrogate: "ch < 256 \<Longrightarrow> \<not> isHighSurrogate ch \<and> \<not> isLowSurrogate ch"
  by (simp add: isHighSurrogate_def isLowSurrogate_def)

lemma quoteBody_Cons: "ch < 256 \<Longrightarrow> quoteBody (ch # rest) = quoteUnit ch @ quoteBody rest"
  by (cases rest) (simp_all add: not_surrogate)

lemma parse_escaped_control:
  assumes "ch < 32" and "parseStringBody rest = Some (str, r)"
  shows "parseStringBody ([92, 117] @ hex4 ch @ rest) = Some (ch # str, r)"
proof -
  define a where "a = ch div 16 mod 16"
  define b where "b = ch mod 16"
  have hi: "hexDigit (digitChar a) = Some a" and lo: "hexDigit (digitChar b) = Some b"
    by (rule hexDigit_digitChar, simp add: a_def, rule hexDigit_digitChar, simp add: b_def)
  have zero: "hexDigit (digitChar 0) = Some 0"
    by (rule hexDigit_digitChar) simp
  have val: "a * 16 + b = ch"
    using assms(1) by (simp add: a_def b_def)
  have "hex4 ch = [digitChar 0, digitChar 0, digitChar a, digitChar b]"
    using assms(1) by (simp add: hex4_def a_def b_def)
  then show ?thesis
    using assms(2) val by (simp add: hi lo zero)
qed

lemma parse_quoteUnit:
  assumes "ch < 256" and "parseStringBody rest = Some (str, r)"
  shows "parseStringBody (quoteUnit ch @ rest) = Some (ch # str, r)"
proof -
  consider "ch \<in> {8, 9, 10, 12, 13, 34, 92}"
    | "ch \<notin> {8, 9, 10, 12, 13, 34, 92}" "ch < 32"
    | "ch \<notin> {8, 9, 10, 12, 13, 34, 92}" "32 \<le> ch"
    by fastforce
  then show ?thesis
  proof cases
    case 1
    then show ?thesis
      using assms(2) by (auto simp: quoteUnit_def unescape_def)
  next
    case 2
    then have "quoteUnit ch = [92, 117] @ hex4 ch"
      by (simp add: quoteUnit_def)
    then show ?thesis
      using parse_escaped_control [OF 2(2) assms(2)] by simp
  next
    case 3
    then have "quoteUnit ch = [ch]"
      using not_surrogate [OF assms(1)] by (simp add: quoteUnit_def)
    then show ?thesis
      using 3 assms(2) by simp
  qed
qed

lemma parse_quoteBody:
  "latin1 str \<Longrightarrow> parseStringBody (quoteBody str @ 34 # rest) = Some (str, rest)"
proof (induction str)
  case Nil
  then show ?case by simp
next
  case (Cons ch str)
  then have ch: "ch < 256" and str: "latin1 str"
    by (simp_all add: latin1_def)
  from Cons.IH [OF str] have "parseStringBody (quoteBody str @ 34 # rest) = Some (str, rest)" .
  from parse_quoteUnit [OF ch this] show ?case
    by (simp add: quoteBody_Cons [OF ch])
qed

lemma digitChar_latin1: "d < 16 \<Longrightarrow> digitChar d < 256"
  by (simp add: digitChar_def)

lemma hex4_latin1: "latin1 (hex4 ch)"
  by (simp add: hex4_def latin1_def digitChar_latin1)

lemma quoteUnit_latin1: "ch < 256 \<Longrightarrow> latin1 (quoteUnit ch)"
proof -
  assume "ch < 256"
  moreover have "latin1 ([92, 117] @ hex4 ch)"
    using hex4_latin1 [of ch] by (simp add: latin1_def)
  ultimately show ?thesis
    by (simp add: quoteUnit_def) (simp add: latin1_def)
qed

lemma latin1_append [simp]: "latin1 (a @ b) \<longleftrightarrow> latin1 a \<and> latin1 b"
  by (simp add: latin1_def)

lemma latin1_Cons [simp]: "latin1 (ch # str) \<longleftrightarrow> ch < 256 \<and> latin1 str"
  by (simp add: latin1_def)

lemma latin1_Nil [simp]: "latin1 []"
  by (simp add: latin1_def)

lemma quoteBody_latin1: "latin1 str \<Longrightarrow> latin1 (quoteBody str)"
proof (induction str)
  case Nil
  then show ?case by (simp add: latin1_def)
next
  case (Cons ch str)
  then have ch: "ch < 256" and str: "latin1 str"
    by (simp_all add: latin1_def)
  with Cons.IH show ?case
    by (simp add: quoteBody_Cons [OF ch] quoteUnit_latin1)
qed

lemma quoteJSONString_latin1: "latin1 str \<Longrightarrow> latin1 (quoteJSONString str)"
proof -
  assume "latin1 str"
  then have "latin1 (quoteBody str)" by (rule quoteBody_latin1)
  moreover have "latin1 [34]" by (simp add: latin1_def)
  ultimately show ?thesis by (simp add: quoteJSONString_def)
qed

subsection \<open>Integers in decimal digits\<close>

lemma natToString_no_leading_zero: "hd (natToString 10 n) = 48 \<Longrightarrow> n = 0"
proof (induction "10::nat" n rule: natToString.induct)
  case (1 n)
  show ?case
  proof (cases "n < 10")
    case True
    then have "natToString 10 n = [digitChar n]"
      by (subst natToString.simps) simp
    with 1(2) True show ?thesis
      by (simp add: digitChar_def)
  next
    case False
    then have eq: "natToString 10 n = natToString 10 (n div 10) @ [digitChar (n mod 10)]"
      by (subst natToString.simps) simp
    have "hd (natToString 10 n) = hd (natToString 10 (n div 10))"
      unfolding eq using natToString_nonempty by simp
    with 1 False have "n div 10 = 0"
      by simp
    with False show ?thesis by simp
  qed
qed

lemma natToString_isDigit: "\<forall>ch \<in> set (natToString 10 n). isDigit ch"
  using natToString_digits [of 10 n] by (auto simp: isDigit_def)

lemma takeWhile_stop:
  "\<forall>x \<in> set xs. P x \<Longrightarrow> \<not> P y \<Longrightarrow> takeWhile P (xs @ y # ys) = xs"
  by (induction xs) simp_all

lemma dropWhile_stop:
  "\<forall>x \<in> set xs. P x \<Longrightarrow> \<not> P y \<Longrightarrow> dropWhile P (xs @ y # ys) = y # ys"
  by (induction xs) simp_all

lemma roundToZero_int: "roundToZero (real_of_int t) = real_of_int t"
proof (cases "t = 0")
  case True
  then show ?thesis by (simp add: roundToZero_def)
next
  case False
  then have "1 \<le> \<bar>t\<bar>"
    by simp
  then have "real_of_int 1 \<le> real_of_int \<bar>t\<bar>"
    by (simp only: of_int_le_iff)
  then have "1 \<le> \<bar>real_of_int t\<bar>"
    by simp
  moreover have "(1::real) / 2 ^ 1075 < 1"
    by simp
  ultimately show ?thesis
    by (simp add: roundToZero_def)
qed

lemma parseNumber_decimal:
  "parseNumber (intToString 10 t @ 44 # rest) = Some (real_of_int t, 44 # rest)"
proof -
  define ds where "ds = natToString 10 (nat \<bar>t\<bar>)"
  have ne: "ds \<noteq> []"
    unfolding ds_def by (rule natToString_nonempty)
  have dig: "\<forall>ch \<in> set ds. isDigit ch"
    unfolding ds_def by (rule natToString_isDigit)
  have val: "digitsValue 10 ds = nat \<bar>t\<bar>"
    unfolding ds_def by (rule natToString_value) simp_all
  have lead: "\<not> (hd ds = 48 \<and> length ds > 1)"
  proof
    assume a: "hd ds = 48 \<and> length ds > 1"
    then have "nat \<bar>t\<bar> = 0"
      unfolding ds_def by (intro natToString_no_leading_zero) simp
    then have "ds = [digitChar 0]"
      unfolding ds_def by (subst natToString.simps) simp
    with a show False by simp
  qed
  have no44: "\<not> isDigit 44"
    by (simp add: isDigit_def)
  have tw: "takeWhile isDigit (ds @ 44 # rest) = ds"
    using dig no44 by (rule takeWhile_stop)
  have dw: "dropWhile isDigit (ds @ 44 # rest) = 44 # rest"
    using dig no44 by (rule dropWhile_stop)
  have fr: "parseFraction (44 # rest) = Some (0, 44 # rest)"
    by (simp add: parseFraction_def)
  have ex: "parseExponent (44 # rest) = Some (1, 44 # rest)"
    by (simp add: parseExponent_def)
  obtain d0 dr where d0: "ds = d0 # dr"
    using ne by (cases ds) auto
  with dig have d0dig: "isDigit d0" by simp
  then have d0not: "d0 \<noteq> 45"
    by (auto simp: isDigit_def)
  show ?thesis
  proof (cases "t < 0")
    case True
    then have str: "intToString 10 t = 45 # ds"
      by (simp add: intToString_def ds_def)
    have "real (nat \<bar>t\<bar>) = - real_of_int t"
      using True by simp
    then have "roundToZero (- real (nat \<bar>t\<bar>)) = real_of_int t"
      by (simp add: roundToZero_int)
    then show ?thesis
      unfolding parseNumber_def str
      using ne lead by (simp add: tw dw fr ex val Let_def)
  next
    case False
    then have str: "intToString 10 t = ds"
      by (simp add: intToString_def ds_def)
    have "real (nat \<bar>t\<bar>) = real_of_int t"
      using False by simp
    then have "roundToZero (real (nat \<bar>t\<bar>)) = real_of_int t"
      by (simp add: roundToZero_int)
    then show ?thesis
      unfolding parseNumber_def str
      using ne lead d0not by (simp add: d0 [symmetric] tw dw fr ex val Let_def)
        (simp add: d0)
  qed
qed

lemma intToString_first:
  "\<exists>c0 cs. intToString 10 t = c0 # cs \<and> (c0 = 45 \<or> isDigit c0)"
proof (cases "t < 0")
  case True
  then show ?thesis by (simp add: intToString_def)
next
  case False
  obtain d0 dr where d0: "natToString 10 (nat t) = d0 # dr"
    using natToString_nonempty [of 10 "nat t"] by (cases "natToString 10 (nat t)") auto
  with natToString_isDigit [of "nat t"] have "isDigit d0"
    by simp
  with d0 False show ?thesis
    by (simp add: intToString_def)
qed

lemma intToString_latin1: "latin1 (intToString 10 t)"
proof -
  have "latin1 (natToString 10 n)" for n
    using natToString_digits [of 10 n] by (auto simp: latin1_def list_all_iff)
  then show ?thesis
    by (simp add: intToString_def latin1_def)
qed

subsection \<open>Values and members\<close>

lemma skipSpace_nonspace: "\<not> isJsonSpace ch \<Longrightarrow> skipSpace (ch # rest) = ch # rest"
  by (simp add: skipSpace_def)

lemma parseValue_string:
  "latin1 str \<Longrightarrow> parseValue (Suc n) (34 # quoteBody str @ 34 # rest) = Some (JStr str, rest)"
  by (simp add: skipSpace_def isJsonSpace_def parse_quoteBody)

lemma parseValue_number:
  "parseValue (Suc n) (intToString 10 t @ 44 # rest) = Some (JNum (real_of_int t), 44 # rest)"
proof -
  obtain c0 cs where str: "intToString 10 t = c0 # cs" and c0: "c0 = 45 \<or> isDigit c0"
    using intToString_first by blast
  have num: "parseNumber (c0 # cs @ 44 # rest) = Some (real_of_int t, 44 # rest)"
    using parseNumber_decimal [of t rest] by (simp add: str)
  from c0 have "\<not> isJsonSpace c0" "c0 \<noteq> 123" "c0 \<noteq> 91" "c0 \<noteq> 34"
    "c0 \<noteq> 116" "c0 \<noteq> 102" "c0 \<noteq> 110"
    by (auto simp: isJsonSpace_def isDigit_def)
  then show ?thesis
    by (simp add: str skipSpace_def ascii_def num)
qed

lemma parseMembers_last:
  assumes "parseValue n inp = Some (v, 125 # rest)"
    and "32 \<le> k" and "k \<noteq> 34" and "k \<noteq> 92"
  shows "parseMembers (Suc n) (34 # k # 34 # 58 # inp) = Some ([([k], v)], rest)"
  using assms by (simp add: skipSpace_def isJsonSpace_def)

lemma parseMembers_more:
  assumes "parseValue n inp = Some (v, 44 # others)"
    and "parseMembers n others = Some (members, rest)"
    and "32 \<le> k" and "k \<noteq> 34" and "k \<noteq> 92"
  shows "parseMembers (Suc n) (34 # k # 34 # 58 # inp) = Some (([k], v) # members, rest)"
  using assms by (simp add: skipSpace_def isJsonSpace_def)

lemma parseValue_object:
  assumes "parseMembers n (34 # inp) = Some (members, rest)"
  shows "parseValue (Suc n) (123 # 34 # inp) = Some (JObj members, rest)"
  using assms by (simp add: skipSpace_def isJsonSpace_def)

lemma JSON_stringify_unfold:
  "JSON_stringify d =
     123 # 34 # 102 # 34 # 58 # (34 # quoteBody (uc_f d) @ 34 # 44 #
      34 # 115 # 34 # 58 # (34 # quoteBody (uc_s d) @ 34 # 44 #
       34 # 116 # 34 # 58 # (intToString 10 (uc_t d) @ 44 #
        34 # 99 # 34 # 58 # (34 # quoteBody (uc_c d) @ 34 # [125]))))"
  by (simp add: JSON_stringify_def quoteJSONString_def ascii_def quoteUnit_def
      isHighSurrogate_def isLowSurrogate_def)

lemma parseValue_stringify:
  assumes "latin1 (uc_f d)" and "latin1 (uc_s d)" and "latin1 (uc_c d)"
  shows "parseValue (Suc (Suc (Suc (Suc (Suc (Suc n)))))) (JSON_stringify d)
         = Some (JObj [([102], JStr (uc_f d)), ([115], JStr (uc_s d)),
                       ([116], JNum (real_of_int (uc_t d))), ([99], JStr (uc_c d))], [])"
proof -
  let ?c = "34 # quoteBody (uc_c d) @ 34 # [125]"
  let ?mc = "34 # 99 # 34 # 58 # ?c"
  let ?t = "intToString 10 (uc_t d) @ 44 # ?mc"
  let ?mt = "34 # 116 # 34 # 58 # ?t"
  let ?s = "34 # quoteBody (uc_s d) @ 34 # 44 # ?mt"
  let ?ms = "34 # 115 # 34 # 58 # ?s"
  let ?f = "34 # quoteBody (uc_f d) @ 34 # 44 # ?ms"
  let ?mf = "34 # 102 # 34 # 58 # ?f"
  have vc: "parseValue (Suc n) ?c = Some (JStr (uc_c d), [125])"
    using assms(3) by (rule parseValue_string)
  have mc: "parseMembers (Suc (Suc n)) ?mc = Some ([([99], JStr (uc_c d))], [])"
    by (rule parseMembers_last [OF vc]) simp_all
  have vt: "parseValue (Suc (Suc n)) ?t = Some (JNum (real_of_int (uc_t d)), 44 # ?mc)"
    by (rule parseValue_number)
  have mt: "parseMembers (Suc (Suc (Suc n))) ?mt
            = Some ([([116], JNum (real_of_int (uc_t d))), ([99], JStr (uc_c d))], [])"
    by (rule parseMembers_more [OF vt mc]) simp_all
  have vs: "parseValue (Suc (Suc (Suc n))) ?s = Some (JStr (uc_s d), 44 # ?mt)"
    using assms(2) by (rule parseValue_string)
  have ms: "parseMembers (Suc (Suc (Suc (Suc n)))) ?ms
            = Some ([([115], JStr (uc_s d)), ([116], JNum (real_of_int (uc_t d))),
                     ([99], JStr (uc_c d))], [])"
    by (rule parseMembers_more [OF vs mt]) simp_all
  have vf: "parseValue (Suc (Suc (Suc (Suc n)))) ?f = Some (JStr (uc_f d), 44 # ?ms)"
    using assms(1) by (rule parseValue_string)
  have mf: "parseMembers (Suc (Suc (Suc (Suc (Suc n))))) ?mf
            = Some ([([102], JStr (uc_f d)), ([115], JStr (uc_s d)),
                     ([116], JNum (real_of_int (uc_t d))), ([99], JStr (uc_c d))], [])"
    by (rule parseMembers_more [OF vf ms]) simp_all
  have "parseValue (Suc (Suc (Suc (Suc (Suc (Suc n)))))) (123 # ?mf)
        = Some (JObj [([102], JStr (uc_f d)), ([115], JStr (uc_s d)),
                      ([116], JNum (real_of_int (uc_t d))), ([99], JStr (uc_c d))], [])"
    by (rule parseValue_object [OF mf])
  then show ?thesis
    by (simp only: JSON_stringify_unfold)
qed

lemma JSON_stringify_length: "6 \<le> length (JSON_stringify d)"
  by (simp add: JSON_stringify_unfold)

lemma JSON_stringify_latin1:
  assumes "latin1 (uc_f d)" and "latin1 (uc_s d)" and "latin1 (uc_c d)"
  shows "latin1 (JSON_stringify d)"
proof -
  have ascii1: "latin1 (ascii ''{'')" "latin1 (ascii '':'')" "latin1 (ascii '','')"
    "latin1 (ascii ''}'')" "latin1 (ascii ''f'')" "latin1 (ascii ''s'')"
    "latin1 (ascii ''t'')" "latin1 (ascii ''c'')"
    by (simp_all add: latin1_def ascii_def)
  show ?thesis
    using assms ascii1
    by (simp add: JSON_stringify_def quoteJSONString_latin1 intToString_latin1)
qed

text \<open>\<open>JSON.parse\<close> gives back the object that \<open>JSON.stringify\<close> wrote.\<close>

lemma JSON_parse_stringify:
  assumes "latin1 (uc_f d)" and "latin1 (uc_s d)" and "latin1 (uc_c d)"
  shows "JSON_parse (JSON_stringify d)
         = Some (JObj [([102], JStr (uc_f d)), ([115], JStr (uc_s d)),
                       ([116], JNum (real_of_int (uc_t d))), ([99], JStr (uc_c d))])"
proof -
  define n where "n = length (JSON_stringify d) - 5"
  have n: "Suc (length (JSON_stringify d)) = Suc (Suc (Suc (Suc (Suc (Suc n)))))"
    using JSON_stringify_length [of d] by (simp add: n_def)
  show ?thesis
    unfolding JSON_parse_def n parseValue_stringify [OF assms]
    by (simp add: skipSpace_def)
qed

section \<open>The slots that are picked\<close>

lemma setAdd_props:
  "set (setAdd v selected) = insert v (set selected)"
  "distinct selected \<Longrightarrow> distinct (setAdd v selected)"
  "length selected \<le> length (setAdd v selected)"
  by (auto simp: setAdd_def)

lemma pickFromBuffer_props:
  "wordIndexes \<noteq> [] \<Longrightarrow>
   set (pickFromBuffer wordIndexes count buffer selected) \<subseteq> set wordIndexes \<union> set selected
   \<and> (distinct selected \<longrightarrow> distinct (pickFromBuffer wordIndexes count buffer selected))
   \<and> length selected \<le> length (pickFromBuffer wordIndexes count buffer selected)"
proof (induction buffer arbitrary: selected)
  case Nil
  show ?case by simp
next
  case (Cons r buffer)
  let ?v = "wordIndexes ! (r mod length wordIndexes)"
  have v: "?v \<in> set wordIndexes"
    using Cons.prems by simp
  show ?case
  proof (cases "length selected < count")
    case False
    then show ?thesis by simp
  next
    case True
    from Cons.IH [OF Cons.prems, of "setAdd ?v selected"]
    show ?thesis
      using True v setAdd_props [where v = ?v and selected = selected]
      by (auto simp: subset_iff)
  qed
qed

lemma pickAttempts_props:
  "wordIndexes \<noteq> [] \<Longrightarrow>
   set (pickAttempts rnd wordIndexes count attempts selected) \<subseteq> set wordIndexes \<union> set selected
   \<and> (distinct selected \<longrightarrow> distinct (pickAttempts rnd wordIndexes count attempts selected))
   \<and> length selected \<le> length (pickAttempts rnd wordIndexes count attempts selected)"
proof (induction rnd wordIndexes count attempts selected rule: pickAttempts.induct)
  case (1 rnd wordIndexes count attempts selected)
  show ?case
  proof (cases "length selected < count \<and> attempts < count * 5")
    case False
    then have "pickAttempts rnd wordIndexes count attempts selected = selected"
      by (subst pickAttempts.simps) auto
    then show ?thesis by simp
  next
    case True
    define nxt where
      "nxt = pickFromBuffer wordIndexes count (map (rnd attempts) [0 ..< count * 2]) selected"
    have step: "pickAttempts rnd wordIndexes count attempts selected
                = pickAttempts rnd wordIndexes count (attempts + 1) nxt"
      using True by (subst pickAttempts.simps) (simp add: nxt_def)
    have ih: "set (pickAttempts rnd wordIndexes count (attempts + 1) nxt)
                \<subseteq> set wordIndexes \<union> set nxt
              \<and> (distinct nxt \<longrightarrow> distinct (pickAttempts rnd wordIndexes count (attempts + 1) nxt))
              \<and> length nxt \<le> length (pickAttempts rnd wordIndexes count (attempts + 1) nxt)"
      using "1.IH" [OF True "1.prems"] by (simp add: nxt_def)
    have pb: "set nxt \<subseteq> set wordIndexes \<union> set selected
              \<and> (distinct selected \<longrightarrow> distinct nxt) \<and> length selected \<le> length nxt"
      unfolding nxt_def using "1.prems" by (rule pickFromBuffer_props)
    show ?thesis
      unfolding step using ih pb by (auto simp: subset_iff)
  qed
qed

lemma pickAttempts_nonempty:
  assumes "wordIndexes \<noteq> []" and "0 < count"
  shows "pickAttempts rnd wordIndexes count 0 [] \<noteq> []"
proof -
  define nxt where "nxt = pickFromBuffer wordIndexes count (map (rnd 0) [0 ..< count * 2]) []"
  have step: "pickAttempts rnd wordIndexes count 0 [] = pickAttempts rnd wordIndexes count 1 nxt"
    using assms(2) by (subst pickAttempts.simps) (simp add: nxt_def)
  obtain r buffer where buf: "map (rnd 0) [0 ..< count * 2] = r # buffer"
    using assms(2) by (cases "map (rnd 0) [0 ..< count * 2]") auto
  let ?v = "wordIndexes ! (r mod length wordIndexes)"
  have "nxt = pickFromBuffer wordIndexes count buffer (setAdd ?v [])"
    using assms(2) by (simp add: nxt_def buf)
  moreover have "length (setAdd ?v []) \<le> length (pickFromBuffer wordIndexes count buffer (setAdd ?v []))"
    using pickFromBuffer_props [OF assms(1)] by blast
  ultimately have "1 \<le> length nxt"
    by (simp add: setAdd_def)
  moreover have "length nxt \<le> length (pickAttempts rnd wordIndexes count 1 nxt)"
    using pickAttempts_props [OF assms(1)] by blast
  ultimately show ?thesis
    unfolding step by auto
qed

lemma pickRandomWordSlots_props:
  assumes "distinct wordIndexes" and "wordIndexes \<noteq> []" and "0 < count"
  shows "pickRandomWordSlots rnd wordIndexes count \<noteq> []"
    and "distinct (pickRandomWordSlots rnd wordIndexes count)"
    and "set (pickRandomWordSlots rnd wordIndexes count) \<subseteq> set wordIndexes"
proof -
  note pa = pickAttempts_props [OF assms(2), of rnd count 0 "[]"]
  show "pickRandomWordSlots rnd wordIndexes count \<noteq> []"
    using assms pickAttempts_nonempty [OF assms(2,3)] by (simp add: pickRandomWordSlots_def)
  show "distinct (pickRandomWordSlots rnd wordIndexes count)"
    using assms(1) pa by (simp add: pickRandomWordSlots_def)
  show "set (pickRandomWordSlots rnd wordIndexes count) \<subseteq> set wordIndexes"
    using pa by (simp add: pickRandomWordSlots_def)
qed

lemma slotsToUse_pos: "0 < n \<Longrightarrow> 0 < slotsToUse n p"
  by (simp add: slotsToUse_def Let_def max_def)

section \<open>The bits of the distributed text\<close>

lemma collectBits_concat_Nil:
  "(\<forall>ys \<in> set xss. collectBits ys = []) \<Longrightarrow> collectBits (concat xss) = []"
  by (induction xss) simp_all

lemma collectBits_update:
  assumes "i < length xs"
    and "\<forall>j. i < j \<and> j < length xs \<longrightarrow> collectBits (xs ! j) = []"
  shows "collectBits (concat (xs[i := xs ! i @ c])) = collectBits (concat xs) @ collectBits c"
proof -
  have "\<forall>ys \<in> set (drop (Suc i) xs). collectBits ys = []"
  proof
    fix ys
    assume "ys \<in> set (drop (Suc i) xs)"
    then obtain k where "ys = drop (Suc i) xs ! k" and k: "k < length (drop (Suc i) xs)"
      by (auto simp: in_set_conv_nth)
    then have "ys = xs ! (Suc i + k)" and "Suc i + k < length xs"
      by simp_all
    with assms(2) show "collectBits ys = []"
      by simp
  qed
  then have tail: "collectBits (concat (drop (Suc i) xs)) = []"
    by (rule collectBits_concat_Nil)
  have "collectBits (concat (xs[i := xs ! i @ c]))
        = collectBits (concat (take i xs)) @ collectBits (xs ! i) @ collectBits c"
    by (simp add: concat_update_append [OF assms(1)] tail)
  moreover have "collectBits (concat xs)
        = collectBits (concat (take i xs)) @ collectBits (xs ! i)"
    using concat_split_at [OF assms(1)] tail
    by (metis collectBits_append append_Nil2)
  ultimately show ?thesis by simp
qed

lemma take_chunk:
  "take idx payload @ take n (drop idx payload)
   = take (idx + length (take n (drop idx payload))) payload"
  by (simp add: take_add min_def)

lemma appendChunks_bits:
  assumes "sorted slots" and "distinct slots"
    and "\<forall>s \<in> set slots. lo \<le> s \<and> s < length tokens"
    and "\<forall>j. lo \<le> j \<and> j < length tokens \<longrightarrow> collectBits (tokens ! j) = []"
    and "collectBits (concat tokens) = collectBits (take idx payload)"
  shows "collectBits (concat (fst (appendChunks payload chunkSize slots (tokens, idx))))
           = collectBits (take (snd (appendChunks payload chunkSize slots (tokens, idx))) payload)
         \<and> length (fst (appendChunks payload chunkSize slots (tokens, idx))) = length tokens
         \<and> (\<forall>j. (\<forall>s \<in> set slots. s < j) \<and> lo \<le> j \<and> j < length tokens
                \<longrightarrow> collectBits (fst (appendChunks payload chunkSize slots (tokens, idx)) ! j) = [])"
  using assms
proof (induction slots arbitrary: lo tokens idx)
  case Nil
  then show ?case by simp
next
  case (Cons slot slots)
  show ?case
  proof (cases "length payload \<le> idx")
    case True
    with Cons.prems show ?thesis by simp
  next
    case False
    define chunk where "chunk = take chunkSize (drop idx payload)"
    define tokens1 where "tokens1 = tokens[slot := tokens ! slot @ chunk]"
    have step: "appendChunks payload chunkSize (slot # slots) (tokens, idx)
                = appendChunks payload chunkSize slots (tokens1, idx + length chunk)"
      using False by (simp add: chunk_def tokens1_def Let_def)
    have slot: "lo \<le> slot" "slot < length tokens"
      using Cons.prems(3) by simp_all
    have len1: "length tokens1 = length tokens"
      by (simp add: tokens1_def)
    have s1: "sorted slots" and d1: "distinct slots"
      using Cons.prems(1,2) by simp_all
    have r1: "\<forall>s \<in> set slots. Suc slot \<le> s \<and> s < length tokens1"
    proof
      fix s
      assume s: "s \<in> set slots"
      with Cons.prems(1) have "slot \<le> s" by simp
      moreover from s Cons.prems(2) have "slot \<noteq> s" by auto
      moreover from s Cons.prems(3) have "s < length tokens" by simp
      ultimately show "Suc slot \<le> s \<and> s < length tokens1"
        by (simp add: len1)
    qed
    have c1: "\<forall>j. Suc slot \<le> j \<and> j < length tokens1 \<longrightarrow> collectBits (tokens1 ! j) = []"
      using Cons.prems(4) slot by (simp add: tokens1_def len1)
    have above: "\<forall>j. slot < j \<and> j < length tokens \<longrightarrow> collectBits (tokens ! j) = []"
      using Cons.prems(4) slot by simp
    have "collectBits (concat tokens1) = collectBits (concat tokens) @ collectBits chunk"
      unfolding tokens1_def using slot(2) above by (rule collectBits_update)
    also have "\<dots> = collectBits (take idx payload @ chunk)"
      by (simp add: Cons.prems(5))
    also have "take idx payload @ chunk = take (idx + length chunk) payload"
      unfolding chunk_def by (rule take_chunk)
    finally have b1: "collectBits (concat tokens1) = collectBits (take (idx + length chunk) payload)" .
    note ih = Cons.IH [OF s1 d1 r1 c1 b1]
    show ?thesis
      unfolding step using ih slot by (auto simp: len1)
  qed
qed

lemma filter_upt_props:
  "distinct (filter P [0 ..< n])" "\<forall>i \<in> set (filter P [0 ..< n]). i < n"
  by simp_all

lemma sorted_le_last: "sorted xs \<Longrightarrow> x \<in> set xs \<Longrightarrow> x \<le> last xs"
  by (induction xs) (auto split: if_splits)

text \<open>
  The bits that \<open>extractFromZeroWidth\<close> collects from the distributed text are the bits of
  the payload, in order, when the text holds no bit marker of its own.
\<close>

lemma distribute_bits:
  assumes "collectBits txt = []"
  shows "collectBits (distributeInvisiblePayload rnd txt payload) = collectBits payload"
proof (cases "payload = []")
  case True
  with assms show ?thesis
    by (simp add: distributeInvisiblePayload_def)
next
  case False
  define tokens where "tokens = splitOnSpace txt"
  define wordIndexes where "wordIndexes = filter (\<lambda>i. isWordToken (tokens ! i)) [0 ..< length tokens]"
  have whole: "concat tokens = txt"
    by (simp add: tokens_def splitOnSpace_concat)
  have clean: "\<forall>j. 0 \<le> j \<and> j < length tokens \<longrightarrow> collectBits (tokens ! j) = []"
  proof (intro allI impI)
    fix j
    assume "0 \<le> j \<and> j < length tokens"
    then have "tokens ! j \<in> set tokens" by simp
    moreover have "concat (map collectBits tokens) = []"
      using assms whole by (simp add: collectBits_concat [symmetric])
    ultimately show "collectBits (tokens ! j) = []"
      by simp
  qed
  show ?thesis
  proof (cases "wordIndexes = []")
    case True
    then show ?thesis
      using False assms
      by (simp add: distributeInvisiblePayload_def Let_def tokens_def [symmetric]
          wordIndexes_def [symmetric])
  next
    case nonempty: False
    define selectedSlots where
      "selectedSlots = sort (pickRandomWordSlots rnd wordIndexes
                               (slotsToUse (length wordIndexes) (length payload)))"
    define chunkSize where "chunkSize = max 8 (ceilDiv (length payload) (length selectedSlots))"
    define result where "result = appendChunks payload chunkSize selectedSlots (tokens, 0)"
    have dw: "distinct wordIndexes" and bw: "\<forall>i \<in> set wordIndexes. i < length tokens"
      unfolding wordIndexes_def by simp_all
    have tokens_ne: "tokens \<noteq> []"
      using nonempty by (auto simp: wordIndexes_def)
    have pos: "0 < slotsToUse (length wordIndexes) (length payload)"
      using nonempty by (intro slotsToUse_pos) simp
    note pick = pickRandomWordSlots_props [OF dw nonempty pos, of rnd]
    have sel_ne: "selectedSlots \<noteq> []"
      using pick(1) unfolding selectedSlots_def
      by (metis length_sort length_0_conv)
    have sel_sorted: "sorted selectedSlots" and sel_distinct: "distinct selectedSlots"
      using pick(2) by (simp_all add: selectedSlots_def)
    have sel_range: "\<forall>s \<in> set selectedSlots. 0 \<le> s \<and> s < length tokens"
      using pick(3) bw by (auto simp: selectedSlots_def)
    have start: "collectBits (concat tokens) = collectBits (take 0 payload)"
      using assms whole by simp
    note ac = appendChunks_bits [OF sel_sorted sel_distinct sel_range clean start,
        of chunkSize, folded result_def]
    have last_in: "last selectedSlots \<in> set selectedSlots"
      using sel_ne by simp
    then have last_lt: "last selectedSlots < length (fst result)"
      using sel_range ac by simp
    have above_last: "\<forall>j. last selectedSlots < j \<and> j < length (fst result)
                        \<longrightarrow> collectBits (fst result ! j) = []"
    proof (intro allI impI)
      fix j
      assume j: "last selectedSlots < j \<and> j < length (fst result)"
      have "\<forall>s \<in> set selectedSlots. s < j"
        using sorted_le_last [OF sel_sorted] j by fastforce
      with ac j show "collectBits (fst result ! j) = []"
        by simp
    qed
    have final:
      "collectBits (concat (if snd result < length payload
                            then (fst result)[last selectedSlots :=
                                   fst result ! last selectedSlots @ drop (snd result) payload]
                            else fst result))
       = collectBits payload"
    proof (cases "snd result < length payload")
      case True
      have "collectBits (concat ((fst result)[last selectedSlots :=
                fst result ! last selectedSlots @ drop (snd result) payload]))
            = collectBits (concat (fst result)) @ collectBits (drop (snd result) payload)"
        using last_lt above_last by (rule collectBits_update)
      also have "\<dots> = collectBits (take (snd result) payload @ drop (snd result) payload)"
        using ac by (simp only: collectBits_append)
      finally show ?thesis
        using True by simp
    next
      case False
      then show ?thesis
        using ac by simp
    qed
    have "distributeInvisiblePayload rnd txt payload
          = concat (if snd result < length payload
                    then (fst result)[last selectedSlots :=
                           fst result ! last selectedSlots @ drop (snd result) payload]
                    else fst result)"
      using False nonempty sel_ne tokens_ne
      by (simp add: distributeInvisiblePayload_def Let_def tokens_def [symmetric]
          wordIndexes_def [symmetric] selectedSlots_def [symmetric] chunkSize_def [symmetric]
          result_def [symmetric] split_beta)
    with final show ?thesis
      by simp
  qed
qed

section \<open>Embedding and extracting the watermark\<close>

lemma dataToBinary_props:
  assumes "latin1 (uc_f d)" and "latin1 (uc_s d)" and "latin1 (uc_c d)"
  shows "set (dataToBinary d) \<subseteq> {48, 49}"
    and "dataToBinary d \<noteq> []"
    and "binaryToChars (dataToBinary d) = JSON_stringify d"
proof -
  have l1: "latin1 (JSON_stringify d)"
    using assms by (rule JSON_stringify_latin1)
  show "set (dataToBinary d) \<subseteq> {48, 49}"
    unfolding dataToBinary_def using l1 by (rule bits_binary)
  show "binaryToChars (dataToBinary d) = JSON_stringify d"
    unfolding dataToBinary_def using l1 by (rule binaryToChars_bits)
  obtain ch rest where js: "JSON_stringify d = ch # rest"
    by (simp add: JSON_stringify_unfold)
  with l1 have "ch < 256" by simp
  then have "length (padStart 8 48 (natToString 2 ch)) = 8"
    by (rule bits_of_char(1))
  then have "padStart 8 48 (natToString 2 ch) \<noteq> []"
    by auto
  then show "dataToBinary d \<noteq> []"
    by (simp add: dataToBinary_def js)
qed

text \<open>
  A text whose bit markers spell the binary form of a watermark object decodes to that
  object, field by field.
\<close>

lemma extractWatermark_bits:
  assumes "latin1 (uc_f d)" and "latin1 (uc_s d)" and "latin1 (uc_c d)"
    and "collectBits str = dataToBinary d"
  shows "extractWatermark str
         = Some \<lparr>ex_fingerprintHash = JStr (uc_f d), ex_secret = JStr (uc_s d),
                 ex_timestamp = JNum (real_of_int (uc_t d)), ex_contentHash = JStr (uc_c d)\<rparr>"
proof -
  note b = dataToBinary_props [OF assms(1-3)]
  have zw: "extractFromZeroWidth str = Some (dataToBinary d)"
    using b(2) by (simp add: extractFromZeroWidth_def assms(4))
  have data: "binaryToData (dataToBinary d)
              = Some (JObj [([102], JStr (uc_f d)), ([115], JStr (uc_s d)),
                            ([116], JNum (real_of_int (uc_t d))), ([99], JStr (uc_c d))])"
    unfolding binaryToData_def b(3) using assms(1-3) by (rule JSON_parse_stringify)
  show ?thesis
    unfolding extractWatermark_def zw
    using b(2) by (simp add: data ascii_def)
qed

lemma embedWatermark_extract:
  assumes "latin1 (fingerprintHash r)" and "latin1 (secret (wvault r))"
    and "latin1 (contentHash r)"
  shows "extractWatermark (invisiblePayload (embedWatermark rnd txt r)) = Some (reproduced r)"
    and "markerFree txt \<Longrightarrow>
         extractWatermark (watermarkedText (embedWatermark rnd txt r)) = Some (reproduced r)"
proof -
  define d where "d = \<lparr>uc_f = fingerprintHash r, uc_s = secret (wvault r),
                        uc_t = timestamp r, uc_c = contentHash r\<rparr>"
  have l: "latin1 (uc_f d)" "latin1 (uc_s d)" "latin1 (uc_c d)"
    using assms by (simp_all add: d_def)
  note b = dataToBinary_props [OF l]
  have payload: "collectBits (binaryToInvisibleText (dataToBinary d)) = dataToBinary d"
    using b(1) by (rule collectBits_binaryToInvisibleText)
  have res: "Some \<lparr>ex_fingerprintHash = JStr (uc_f d), ex_secret = JStr (uc_s d),
                   ex_timestamp = JNum (real_of_int (uc_t d)), ex_contentHash = JStr (uc_c d)\<rparr>
             = Some (reproduced r)"
    by (simp add: reproduced_def d_def)
  show "extractWatermark (invisiblePayload (embedWatermark rnd txt r)) = Some (reproduced r)"
    using extractWatermark_bits [OF l payload] res
    by (simp add: embedWatermark_def Let_def d_def)
  show "extractWatermark (watermarkedText (embedWatermark rnd txt r)) = Some (reproduced r)"
    if "markerFree txt"
  proof -
    have "collectBits txt = []"
      using that by (rule collectBits_markerFree)
    then have "collectBits (distributeInvisiblePayload rnd txt
                 (binaryToInvisibleText (dataToBinary d))) = dataToBinary d"
      using payload by (simp add: distribute_bits)
    from extractWatermark_bits [OF l this] res show ?thesis
      by (simp add: embedWatermark_def embedWithZeroWidth_def Let_def d_def)
  qed
qed

text \<open>
  A text with a bit marker of its own. The text \<open>a\<close> followed by U+200B is one word, the
  whole payload is appended to it, and \<open>extractFromZeroWidth\<close> collects the bit of the text
  in front of the bits of the payload: every character is decoded one bit late, the first
  one as \<open>=\<close>, and \<open>JSON.parse\<close> throws.
\<close>

lemma slotsToUse_one: "slotsToUse (Suc 0) p = Suc 0"
  by (auto simp: slotsToUse_def Let_def min_def max_def)

lemma distribute_marked_word:
  "distributeInvisiblePayload rnd [97, 8203] payload = [97, 8203] @ payload"
proof (cases "payload = []")
  case True
  then show ?thesis
    by (simp add: distributeInvisiblePayload_def)
next
  case False
  have tok: "splitOnSpace [97, 8203] = [[97, 8203]]"
    by (simp add: splitOnSpace_def isSpace_def)
  have word: "isWordToken [97, 8203]"
    by (simp add: isWordToken_def trim_def isSpace_def)
  have pick: "pickRandomWordSlots rnd [0] (Suc 0) = [0]"
    by (simp add: pickRandomWordSlots_def)
  have chunk: "max 8 (ceilDiv (length payload) (Suc 0)) \<ge> length payload"
    by (simp add: ceilDiv_def)
  have len: "0 < length payload"
    using False by simp
  show ?thesis
    using False chunk len
    by (simp add: distributeInvisiblePayload_def tok word slotsToUse_one pick Let_def)
qed

lemma JSON_parse_equals_sign: "JSON_parse (61 # str) = None"
  by (simp add: JSON_parse_def skipSpace_def isJsonSpace_def ascii_def parseNumber_def
      isDigit_def Let_def)

lemma binaryToChars_late:
  "binaryToChars (48 # padStart 8 48 (natToString 2 123) @ bits)
   = 61 # binaryToChars (49 # bits)"
proof -
  have b: "padStart 8 48 (natToString 2 123) = [48, 49, 49, 49, 49, 48, 49, 49]"
    by (simp add: natToString.simps padStart_def digitChar_def)
  have "parseInt [48, 48, 49, 49, 49, 49, 48, 49] 2
        = Some (int (digitsValue 2 [48, 48, 49, 49, 49, 49, 48, 49]))"
    by (rule parseInt_binary) simp_all
  moreover have "digitsValue 2 [48, 48, 49, 49, 49, 49, 48, 49] = 61"
    by (simp add: digitsValue_def digitValue_def)
  ultimately have p: "parseInt [48, 48, 49, 49, 49, 49, 48, 49] 2 = Some 61"
    by simp
  show ?thesis
    unfolding b by (subst binaryToChars.simps) (simp add: p fromCharCode_def)
qed

lemma extractWatermark_marked_word:
  assumes "latin1 (fingerprintHash r)" and "latin1 (secret (wvault r))"
    and "latin1 (contentHash r)"
  shows "extractWatermark (watermarkedText (embedWatermark rnd [97, 8203] r)) = None"
proof -
  define d where "d = \<lparr>uc_f = fingerprintHash r, uc_s = secret (wvault r),
                        uc_t = timestamp r, uc_c = contentHash r\<rparr>"
  have l: "latin1 (uc_f d)" "latin1 (uc_s d)" "latin1 (uc_c d)"
    using assms by (simp_all add: d_def)
  note b = dataToBinary_props [OF l]
  have payload: "collectBits (binaryToInvisibleText (dataToBinary d)) = dataToBinary d"
    using b(1) by (rule collectBits_binaryToInvisibleText)
  have own: "collectBits [97, 8203] = [48]"
    by (simp add: collectBits_def ZERO_BIT_def ONE_BIT_def)
  have bits: "collectBits (watermarkedText (embedWatermark rnd [97, 8203] r))
              = 48 # dataToBinary d"
    by (simp add: embedWatermark_def embedWithZeroWidth_def Let_def d_def [symmetric]
        distribute_marked_word payload own del: append.simps)
  obtain tail where js: "JSON_stringify d = 123 # tail"
    by (simp add: JSON_stringify_unfold)
  have "dataToBinary d = padStart 8 48 (natToString 2 123)
          @ concat (map (\<lambda>charCode. padStart 8 48 (natToString 2 charCode)) tail)"
    by (simp add: dataToBinary_def js)
  then obtain bits' where "binaryToChars (48 # dataToBinary d) = 61 # binaryToChars (49 # bits')"
    using binaryToChars_late by metis
  then have "binaryToData (48 # dataToBinary d) = None"
    by (simp add: binaryToData_def JSON_parse_equals_sign)
  then show ?thesis
    by (simp add: extractWatermark_def extractFromZeroWidth_def bits)
qed

text \<open>
  C4 as stated fails on the watermarked text of a text that holds a marker character:
  for the well-formed sample record and the text \<open>a\<close> followed by U+200B,
  \<open>extractWatermark\<close> returns \<open>null\<close>, not the record.
\<close>

theorem watermark_roundtrip_counterexample:
  "wellFormedRecord sampleRecord
   \<and> extractWatermark (watermarkedText (embedWatermark (\<lambda>a i. i) [97, 8203] sampleRecord))
       = None
   \<and> extractWatermark (watermarkedText (embedWatermark (\<lambda>a i. i) [97, 8203] sampleRecord))
       \<noteq> Some (reproduced sampleRecord)"
proof -
  have l: "latin1 (fingerprintHash sampleRecord)" "latin1 (secret (wvault sampleRecord))"
    "latin1 (contentHash sampleRecord)"
    by (simp_all add: sampleRecord_def ascii_def)
  have wf: "wellFormedRecord sampleRecord"
    using l by (simp add: wellFormedRecord_def) (simp add: sampleRecord_def)
  from extractWatermark_marked_word [OF l] wf show ?thesis
    by simp
qed

text \<open>
  C4, amended. For every well-formed record and every choice of slots: on the watermarked
  text of \<open>embedWatermark\<close> for a text that holds none of the three marker characters,
  \<open>extractWatermark\<close> gives the record back field by field, the fingerprint hash, the
  secret of the vault, the timestamp and the content hash (the empty content hash
  included); on the invisible payload of \<open>embedWatermark\<close> it does so for every text.
\<close>

theorem watermark_roundtrip:
  assumes "wellFormedRecord r"
  shows "(markerFree txt \<longrightarrow>
            extractWatermark (watermarkedText (embedWatermark rnd txt r)) = Some (reproduced r))
         \<and> extractWatermark (invisiblePayload (embedWatermark rnd txt r)) = Some (reproduced r)"
proof -
  from assms have l: "latin1 (fingerprintHash r)" "latin1 (secret (wvault r))"
    "latin1 (contentHash r)"
    by (simp_all add: wellFormedRecord_def)
  from embedWatermark_extract [OF l] show ?thesis
    by simp
qed

theorem watermark_roundtrip_witness:
  "wellFormedRecord (sampleRecord\<lparr>contentHash := []\<rparr>)
   \<and> markerFree (ascii ''Hi there'')
   \<and> extractWatermark (watermarkedText (embedWatermark (\<lambda>a i. i) (ascii ''Hi there'')
        (sampleRecord\<lparr>contentHash := []\<rparr>)))
      = Some \<lparr>ex_fingerprintHash = JStr (ascii ''test123''), ex_secret = JStr (ascii ''testsecret''),
              ex_timestamp = JNum 1700000000000, ex_contentHash = JStr []\<rparr>
   \<and> extractWatermark (invisiblePayload (embedWatermark (\<lambda>a i. i) [97, 8203]
        (sampleRecord\<lparr>contentHash := []\<rparr>)))
      = Some \<lparr>ex_fingerprintHash = JStr (ascii ''test123''), ex_secret = JStr (ascii ''testsecret''),
              ex_timestamp = JNum 1700000000000, ex_contentHash = JStr []\<rparr>"
proof -
  have wf: "wellFormedRecord (sampleRecord\<lparr>contentHash := []\<rparr>)"
    by (simp add: wellFormedRecord_def sampleRecord_def latin1_def ascii_def)
  have mf: "markerFree (ascii ''Hi there'')"
    by (simp add: markerFree_def isMarker_def ascii_def)
  have "reproduced (sampleRecord\<lparr>contentHash := []\<rparr>)
        = \<lparr>ex_fingerprintHash = JStr (ascii ''test123''), ex_secret = JStr (ascii ''testsecret''),
           ex_timestamp = JNum 1700000000000, ex_contentHash = JStr []\<rparr>"
    by (simp add: reproduced_def sampleRecord_def)
  with watermark_roundtrip [OF wf, of "ascii ''Hi there''" "\<lambda>a i. i"]
    watermark_roundtrip [OF wf, of "[97, 8203]" "\<lambda>a i. i"] wf mf
  show ?thesis
    by simp
qed

section \<open>Verification\<close>

lemma extractWatermark_contentHash:
  "extractWatermark str = Some w \<Longrightarrow> truthy (ex_contentHash w) \<longleftrightarrow> ex_contentHash w \<noteq> JStr []"
  by (auto simp: extractWatermark_def Let_def split: option.splits if_splits)

text \<open>
  C1. \<open>verifyDocument\<close> returns \<open>true\<close> exactly when the text of the document was read, a
  watermark record decodes from it, the content hash of the record is empty or is the
  hash of the text without its markers, the fingerprint yields minutiae, and their hash
  is the fingerprint hash of the record. In every other case it returns \<open>false\<close>; being a
  total function to the booleans, it raises nothing.
\<close>

theorem verifyDocument_iff:
  "verifyDocument angleText fingerprintFile encryptedDocument \<longleftrightarrow>
     (\<exists>encryptedText watermarkData minutiae.
        readEncryptedText encryptedDocument = Inr encryptedText
        \<and> extractWatermark encryptedText = Some watermarkData
        \<and> (ex_contentHash watermarkData = JStr []
            \<or> ex_contentHash watermarkData
               = JStr (hashContent (getUserVisibleText encryptedText)))
        \<and> processFingerprint fingerprintFile = Inr minutiae
        \<and> ex_fingerprintHash watermarkData = JStr (hashMinutiae angleText minutiae))"
proof (cases "readEncryptedText encryptedDocument")
  case (Inl err)
  then show ?thesis
    by (simp add: verifyDocument_def)
next
  case (Inr encryptedText)
  show ?thesis
  proof (cases "extractWatermark encryptedText")
    case None
    with Inr show ?thesis
      by (simp add: verifyDocument_def)
  next
    case (Some watermarkData)
    note ch = extractWatermark_contentHash [OF Some]
    show ?thesis
    proof (cases "processFingerprint fingerprintFile")
      case (Inl err)
      with Inr Some show ?thesis
        by (simp add: verifyDocument_def Let_def)
    next
      case minutiae: (Inr minutiae)
      with Inr Some ch show ?thesis
        by (auto simp: verifyDocument_def Let_def)
    qed
  qed
qed

lemma natToString_latin1:
  "2 \<le> radix \<Longrightarrow> radix \<le> 16 \<Longrightarrow> latin1 (natToString radix n)"
proof (induction radix n rule: natToString.induct)
  case (1 radix n)
  show ?case
  proof (cases "n < radix")
    case True
    then have "natToString radix n = [digitChar n]"
      by (subst natToString.simps) simp
    moreover have "digitChar n < 256"
      using True 1(3) by (intro digitChar_latin1) simp
    ultimately show ?thesis by simp
  next
    case False
    then have eq: "natToString radix n = natToString radix (n div radix) @ [digitChar (n mod radix)]"
      using 1(2) by (subst natToString.simps) simp
    have "n mod radix < 16"
      using 1(2,3) by (meson less_le_trans mod_less_divisor order_less_le_trans pos2)
    then have "digitChar (n mod radix) < 256"
      by (rule digitChar_latin1)
    with 1 False show ?thesis
      by (simp add: eq)
  qed
qed

lemma simpleHash_latin1: "latin1 (simpleHash str)"
  by (simp add: simpleHash_def intToString_def natToString_latin1)

lemma markersOnly_binaryToInvisibleText: "markersOnly (binaryToInvisibleText binary)"
  using binaryToInvisibleText_markers [of binary]
  by (auto simp: markersOnly_def isMarker_def list_all_iff)

lemma embedWatermark_visible:
  "markerFree txt \<Longrightarrow> getUserVisibleText (watermarkedText (embedWatermark rnd txt r)) = txt"
  using distribute_visible [OF markersOnly_binaryToInvisibleText] visible_markerFree
  by (simp add: embedWatermark_def embedWithZeroWidth_def Let_def)

text \<open>
  The document that \<open>encryptDocument\<close> writes for a plain text verifies with the
  fingerprint it was written with: the record holds the hash of the minutiae and the hash
  of the text, and the text has no marker character of its own.
\<close>

lemma verify_embedded_document:
  assumes "processFingerprint fingerprintFile = Inr minutiae"
    and "markerFree txt"
    and "latin1 (secret v)"
  shows "verifyDocument angleText fingerprintFile
           (DocString (watermarkedText (embedWatermark rnd txt
              \<lparr>fingerprintHash = hashMinutiae angleText minutiae, wvault = v,
               timestamp = ts, contentHash = hashContent txt\<rparr>)))"
proof -
  let ?r = "\<lparr>fingerprintHash = hashMinutiae angleText minutiae, wvault = v,
             timestamp = ts, contentHash = hashContent txt\<rparr>"
  have l: "latin1 (fingerprintHash ?r)" "latin1 (secret (wvault ?r))" "latin1 (contentHash ?r)"
    using assms(3) by (simp_all add: hashMinutiae_def hashContent_def simpleHash_latin1)
  have ex: "extractWatermark (watermarkedText (embedWatermark rnd txt ?r)) = Some (reproduced ?r)"
    using embedWatermark_extract(2) [OF l assms(2)] .
  have vis: "getUserVisibleText (watermarkedText (embedWatermark rnd txt ?r)) = txt"
    using assms(2) by (rule embedWatermark_visible)
  show ?thesis
    unfolding verifyDocument_def readEncryptedText_def
    by (simp add: ex vis assms(1) reproduced_def Let_def)
qed

theorem verifyDocument_iff_witness:
  "verifyDocument sampleAngleText (Extracted (sampleMinutiae 12)) (DocString sampleArtifact)
   \<and> (\<exists>watermarkData.
        extractWatermark sampleArtifact = Some watermarkData
        \<and> (ex_contentHash watermarkData = JStr []
            \<or> ex_contentHash watermarkData
               = JStr (hashContent (getUserVisibleText sampleArtifact)))
        \<and> ex_fingerprintHash watermarkData
           = JStr (hashMinutiae sampleAngleText (sampleMinutiae 12)))
   \<and> \<not> verifyDocument sampleAngleText (Unreadable (ascii ''Failed to load image''))
         (DocString sampleArtifact)
   \<and> \<not> verifyDocument sampleAngleText (Extracted (sampleMinutiae 12))
         (DocString (ascii ''Hi there''))"
proof -
  have fp: "processFingerprint (Extracted (sampleMinutiae 12)) = Inr (sampleMinutiae 12)"
    using normalizeMinutiae_sample [of 12]
    by (simp add: processFingerprint_def Let_def MIN_MINUTIAE_def)
       (simp add: sampleMinutiae_def)
  have mf: "markerFree (ascii ''Hi there'')"
    by (simp add: markerFree_def isMarker_def ascii_def)
  have sec: "latin1 (secret sampleVault)"
    by (simp add: sampleVault_def ascii_def)
  have yes: "verifyDocument sampleAngleText (Extracted (sampleMinutiae 12))
               (DocString sampleArtifact)"
    unfolding sampleArtifact_def sampleOwnerRecord_def
    by (rule verify_embedded_document [OF fp mf sec])
  have bad: "processFingerprint (Unreadable (ascii ''Failed to load image''))
             = Inl (Error (ascii ''Failed to load image''))"
    by (simp add: processFingerprint_def)
  have plain: "extractWatermark (ascii ''Hi there'') = None"
    by (simp add: extractWatermark_def extractFromZeroWidth_def collectBits_markerFree [OF mf])
  show ?thesis
    using yes fp bad plain
      verifyDocument_iff [of sampleAngleText "Extracted (sampleMinutiae 12)" "DocString sampleArtifact"]
      verifyDocument_iff [of sampleAngleText "Unreadable (ascii ''Failed to load image'')"
        "DocString sampleArtifact"]
      verifyDocument_iff [of sampleAngleText "Extracted (sampleMinutiae 12)"
        "DocString (ascii ''Hi there'')"]
    by (auto simp: readEncryptedText_def)
qed

end
